theory Spec2Isabelle
  imports Complex_Main "HOL-Library.Multiset" "HOL-Library.Product_Lexorder" "HOL-Library.AList"
    "HOL-Library.Word"
begin

section \<open>Klotski state space: pieces, states and the move generator\<close>

text \<open>
  The embedding follows \<^verbatim>\<open>scripts/compute_klotski.py\<close>. Python integers are \<open>int\<close>.
  The dataclass \<^verbatim>\<open>Piece\<close> has the fields \<^verbatim>\<open>id, x, y, width, height\<close>; the
  record fields carry the prefix \<open>p_\<close> because \<open>id\<close> is a HOL constant and one-letter
  field names would capture variables.
\<close>

record piece =
  p_id :: int
  p_x :: int
  p_y :: int
  p_width :: int
  p_height :: int

text \<open>
  The dataclass constructor stores its five arguments; the source has no
  \<^verbatim>\<open>__post_init__\<close> and raises nothing. The result type has an error branch so that
  the absence of a validation is a statement about the model and not a typing accident.
\<close>

datatype error = InvalidPieceError | ExplorationLimitExceeded | KeyError | IndexError

definition Piece :: "int \<Rightarrow> int \<Rightarrow> int \<Rightarrow> int \<Rightarrow> int \<Rightarrow> error + piece" where
  "Piece i x y w h = Inr \<lparr>p_id = i, p_x = x, p_y = y, p_width = w, p_height = h\<rparr>"

text \<open>\<^verbatim>\<open>range(n)\<close> for an integer \<open>n\<close>: empty when \<open>n \<le> 0\<close>.\<close>

definition range_py :: "int \<Rightarrow> int list" where
  "range_py n = [0..n - 1]"

text \<open>\<^verbatim>\<open>Piece.get_positions\<close>: two nested loops adding to a set.\<close>

definition get_positions :: "piece \<Rightarrow> (int \<times> int) set" where
  "get_positions p =
     fold (\<lambda>dx positions.
             fold (\<lambda>dy positions. insert (p_x p + dx, p_y p + dy) positions)
                  (range_py (p_height p)) positions)
          (range_py (p_width p)) {}"

record kstate =
  pieces :: "piece list"
  board_width :: int
  board_height :: int

type_synonym geometry = "int \<times> int \<times> int \<times> int"

definition geom :: "piece \<Rightarrow> geometry" where
  "geom p = (p_x p, p_y p, p_width p, p_height p)"

text \<open>
  \<^verbatim>\<open>to_tuple\<close>: the sorted tuple of \<open>(x, y, width, height)\<close>. Python compares tuples
  lexicographically, which is the order of \<open>Product_Lexorder\<close> on nested pairs.
\<close>

definition to_tuple :: "kstate \<Rightarrow> geometry list" where
  "to_tuple s = sort (map geom (pieces s))"

text \<open>
  \<^verbatim>\<open>to_hash\<close> is \<^verbatim>\<open>hashlib.md5(str(self.to_tuple()).encode()).hexdigest()\<close>. The
  digest of the printed tuple is library code; it is the parameter \<open>H\<close>.
\<close>

definition to_hash :: "(geometry list \<Rightarrow> 'h) \<Rightarrow> kstate \<Rightarrow> 'h" where
  "to_hash H s = H (to_tuple s)"

text \<open>
  \<^verbatim>\<open>to_position_array\<close>: the pieces sorted by id (Python's sort is stable, as is
  \<open>sort_key\<close>), each reduced to \<open>[x, y]\<close>.
\<close>

definition to_position_array :: "kstate \<Rightarrow> (int \<times> int) list" where
  "to_position_array s = map (\<lambda>p. (p_x p, p_y p)) (sort_key p_id (pieces s))"

text \<open>
  \<^verbatim>\<open>get_occupied_positions\<close>: a dictionary from cell to piece id, later pieces
  overwriting earlier ones.
\<close>

definition get_occupied_positions :: "kstate \<Rightarrow> (int \<times> int) \<rightharpoonup> int" where
  "get_occupied_positions s =
     fold (\<lambda>piece occupied pos.
             if pos \<in> get_positions piece then Some (p_id piece) else occupied pos)
          (pieces s) Map.empty"

definition is_valid_position :: "kstate \<Rightarrow> int \<Rightarrow> int \<Rightarrow> int \<Rightarrow> int \<Rightarrow> int \<Rightarrow> bool" where
  "is_valid_position s piece_id new_x new_y piece_width piece_height =
     (if new_x < 0 \<or> new_y < 0 then False
      else if new_x + piece_width > board_width s then False
      else if new_y + piece_height > board_height s then False
      else
        (let occupied = get_occupied_positions s in
         list_all (\<lambda>dx. list_all (\<lambda>dy.
             \<not> (occupied (new_x + dx, new_y + dy) \<noteq> None
                \<and> occupied (new_x + dx, new_y + dy) \<noteq> Some piece_id))
           (range_py piece_height)) (range_py piece_width)))"

definition directions :: "(int \<times> int \<times> string) list" where
  "directions = [(-1, 0, ''left''), (1, 0, ''right''), (0, -1, ''up''), (0, 1, ''down'')]"

text \<open>
  The inner loop of \<^verbatim>\<open>get_possible_moves\<close> that rebuilds the piece list: every piece
  whose id equals the moving piece's id is placed at the new position.
\<close>

definition move_pieces :: "kstate \<Rightarrow> int \<Rightarrow> int \<Rightarrow> int \<Rightarrow> kstate" where
  "move_pieces s piece_id new_x new_y =
     \<lparr>pieces = map (\<lambda>p. if p_id p = piece_id
                         then \<lparr>p_id = p_id p, p_x = new_x, p_y = new_y,
                               p_width = p_width p, p_height = p_height p\<rparr>
                         else \<lparr>p_id = p_id p, p_x = p_x p, p_y = p_y p,
                               p_width = p_width p, p_height = p_height p\<rparr>) (pieces s),
      board_width = board_width s, board_height = board_height s\<rparr>"

type_synonym move = "kstate \<times> int \<times> string"

definition try_direction :: "kstate \<Rightarrow> piece \<Rightarrow> int \<times> int \<times> string \<Rightarrow> move list \<Rightarrow> move list" where
  "try_direction s piece d moves =
     (case d of (dx, dy, direction) \<Rightarrow>
        (let new_x = p_x piece + dx; new_y = p_y piece + dy in
         if is_valid_position s (p_id piece) new_x new_y (p_width piece) (p_height piece)
         then moves @ [(move_pieces s (p_id piece) new_x new_y, p_id piece, direction)]
         else moves))"

definition get_possible_moves :: "kstate \<Rightarrow> move list" where
  "get_possible_moves s =
     fold (\<lambda>piece moves. fold (try_direction s piece) directions moves) (pieces s) []"

text \<open>The two predefined puzzles of the source.\<close>

definition mk_piece :: "int \<Rightarrow> int \<Rightarrow> int \<Rightarrow> int \<Rightarrow> int \<Rightarrow> piece" where
  "mk_piece i x y w h = \<lparr>p_id = i, p_x = x, p_y = y, p_width = w, p_height = h\<rparr>"

definition create_simple_klotski :: kstate where
  "create_simple_klotski =
     \<lparr>pieces = [mk_piece 0 0 0 2 2, mk_piece 1 2 0 1 2, mk_piece 2 0 2 1 1, mk_piece 3 1 2 1 1],
      board_width = 3, board_height = 3\<rparr>"


subsection \<open>The invariants of the data model\<close>

text \<open>
  A state of the specification has one piece per id, its pieces do not overlap and they
  lie on the board. None of the three is checked by the source; they are predicates on
  the states the source accepts.
\<close>

definition ids_unique :: "kstate \<Rightarrow> bool" where
  "ids_unique s = distinct (map p_id (pieces s))"

definition pieces_disjoint :: "kstate \<Rightarrow> bool" where
  "pieces_disjoint s =
     sorted_wrt (\<lambda>p q. get_positions p \<inter> get_positions q = {}) (pieces s)"

definition in_bounds :: "kstate \<Rightarrow> bool" where
  "in_bounds s =
     (\<forall>p\<in>set (pieces s). \<forall>(cx, cy)\<in>get_positions p.
        0 \<le> cx \<and> cx < board_width s \<and> 0 \<le> cy \<and> cy < board_height s)"

definition state_invariant :: "kstate \<Rightarrow> bool" where
  "state_invariant s = (pieces_disjoint s \<and> in_bounds s)"

text \<open>
  The nested loops of \<^verbatim>\<open>get_possible_moves\<close> as one comprehension: the pieces in list
  order and, for each piece, the legal candidates in the order of \<open>directions\<close>.
\<close>

definition moves_in_order :: "kstate \<Rightarrow> move list" where
  "moves_in_order s =
     concat (map (\<lambda>piece.
        map (\<lambda>(dx, dy, direction).
               (move_pieces s (p_id piece) (p_x piece + dx) (p_y piece + dy), p_id piece, direction))
            (filter (\<lambda>(dx, dy, direction).
               is_valid_position s (p_id piece) (p_x piece + dx) (p_y piece + dy)
                 (p_width piece) (p_height piece)) directions))
        (pieces s))"

section \<open>The graph explorer\<close>

record 'h edge =
  e_source :: 'h
  e_target :: 'h
  e_piece_id :: int
  e_direction :: string

text \<open>
  \<^verbatim>\<open>KlotskiSolver\<close> has the fields \<^verbatim>\<open>initial_state\<close>, \<^verbatim>\<open>visited_states\<close> (a
  dictionary, which in Python keeps insertion order and replaces the value of a present
  key in place: an association list with \<open>AList.update\<close>) and \<^verbatim>\<open>edges\<close>. The record
  also carries the two local variables of \<^verbatim>\<open>compute_state_space\<close>, \<^verbatim>\<open>queue\<close> and
  \<^verbatim>\<open>queued_states\<close>. The progress messages and the periodic dump of the visited
  states to a text file do not change any of the five and are left out.
\<close>

record 'h solver =
  initial_state :: kstate
  visited_states :: "('h \<times> kstate) list"
  edges :: "'h edge list"
  queue :: "kstate list"
  queued_states :: "'h set"

definition KlotskiSolver :: "kstate \<Rightarrow> 'h solver" where
  "KlotskiSolver init =
     \<lparr>initial_state = init, visited_states = [], edges = [], queue = [], queued_states = {}\<rparr>"

text \<open>The body of the loop over the moves of the state being expanded.\<close>

definition record_move :: "(geometry list \<Rightarrow> 'h) \<Rightarrow> 'h \<Rightarrow> move \<Rightarrow> 'h solver \<Rightarrow> 'h solver" where
  "record_move H current_hash m sv =
     (case m of (new_state, piece_id, direction) \<Rightarrow>
        (let new_hash = to_hash H new_state;
             sv1 = sv\<lparr>edges := edges sv @
                      [\<lparr>e_source = current_hash, e_target = new_hash,
                        e_piece_id = piece_id, e_direction = direction\<rparr>]\<rparr>
         in if new_hash \<notin> fst ` set (visited_states sv1) \<and> new_hash \<notin> queued_states sv1
            then sv1\<lparr>queue := queue sv1 @ [new_state],
                     queued_states := insert new_hash (queued_states sv1)\<rparr>
            else sv1))"

text \<open>
  One iteration of the \<^verbatim>\<open>while queue\<close> loop. \<^verbatim>\<open>popleft\<close> raises IndexError on an
  empty deque and \<^verbatim>\<open>set.remove\<close> raises KeyError on a missing element.
\<close>

definition loop_body :: "(geometry list \<Rightarrow> 'h) \<Rightarrow> 'h solver \<Rightarrow> error + 'h solver" where
  "loop_body H sv =
     (case queue sv of
        [] \<Rightarrow> Inl IndexError
      | current_state # rest \<Rightarrow>
          (let current_hash = to_hash H current_state in
           if current_hash \<notin> queued_states sv then Inl KeyError
           else
             (let sv1 = sv\<lparr>queue := rest, queued_states := queued_states sv - {current_hash}\<rparr>;
                  moves = get_possible_moves current_state;
                  sv2 = fold (record_move H current_hash) moves sv1
              in Inr (sv2\<lparr>visited_states :=
                            AList.update current_hash current_state (visited_states sv2)\<rparr>))))"

partial_function (option) explore :: "(geometry list \<Rightarrow> 'h) \<Rightarrow> 'h solver \<Rightarrow> (error + 'h solver) option" where
  "explore H sv =
     (if queue sv = [] then Some (Inr sv)
      else (case loop_body H sv of
              Inl e \<Rightarrow> Some (Inl e)
            | Inr sv' \<Rightarrow> explore H sv'))"

declare explore.simps [code]

record piece_def =
  d_id :: int
  d_width :: int
  d_height :: int

record 'h node =
  n_id :: 'h
  n_positions :: "(int \<times> int) list"

record 'h graph =
  total_nodes :: nat
  total_edges :: nat
  g_board_width :: int
  g_board_height :: int
  g_pieces :: "piece_def list"
  g_nodes :: "'h node list"
  g_edges :: "'h edge list"

definition create_graph_json :: "'h solver \<Rightarrow> 'h graph" where
  "create_graph_json sv =
     (let sorted_pieces = sort_key p_id (pieces (initial_state sv));
          piece_definitions =
            map (\<lambda>p. \<lparr>d_id = p_id p, d_width = p_width p, d_height = p_height p\<rparr>) sorted_pieces;
          nodes = map (\<lambda>(state_hash, state).
                         \<lparr>n_id = state_hash, n_positions = to_position_array state\<rparr>)
                      (visited_states sv)
      in \<lparr>total_nodes = length nodes, total_edges = length (edges sv),
          g_board_width = board_width (initial_state sv),
          g_board_height = board_height (initial_state sv),
          g_pieces = piece_definitions, g_nodes = nodes, g_edges = edges sv\<rparr>)"

text \<open>
  \<^verbatim>\<open>compute_state_space\<close> mutates the solver and returns the graph; the model returns
  both. \<open>None\<close> is a loop that does not end.
\<close>

definition compute_state_space ::
  "(geometry list \<Rightarrow> 'h) \<Rightarrow> 'h solver \<Rightarrow> (error + 'h solver \<times> 'h graph) option" where
  "compute_state_space H sv =
     (case explore H (sv\<lparr>queue := [initial_state sv],
                         queued_states := {to_hash H (initial_state sv)}\<rparr>) of
        None \<Rightarrow> None
      | Some (Inl e) \<Rightarrow> Some (Inl e)
      | Some (Inr sv') \<Rightarrow> Some (Inr (sv', create_graph_json sv')))"



subsection \<open>Reachability and the invariant of the exploration loop\<close>

text \<open>
  The states reachable from an initial state by legal moves, the edge the loop records for
  one move, and the invariant the \<^verbatim>\<open>while\<close> loop keeps between iterations.
\<close>

inductive_set reachable :: "kstate \<Rightarrow> kstate set" for init :: kstate where
  start: "init \<in> reachable init"
| step: "s \<in> reachable init \<Longrightarrow> (s', i, d) \<in> set (get_possible_moves s) \<Longrightarrow> s' \<in> reachable init"

definition edge_of :: "(geometry list \<Rightarrow> 'h) \<Rightarrow> 'h \<Rightarrow> move \<Rightarrow> 'h edge" where
  "edge_of H h m =
     (case m of (new_state, piece_id, direction) \<Rightarrow>
        \<lparr>e_source = h, e_target = to_hash H new_state,
         e_piece_id = piece_id, e_direction = direction\<rparr>)"

definition explorer_inv :: "(geometry list \<Rightarrow> 'h) \<Rightarrow> kstate \<Rightarrow> 'h solver \<Rightarrow> bool" where
  "explorer_inv H init sv =
     (initial_state sv = init
      \<and> queued_states sv = to_hash H ` set (queue sv)
      \<and> distinct (map (to_hash H) (queue sv))
      \<and> (\<forall>(h, s)\<in>set (visited_states sv). h = to_hash H s)
      \<and> distinct (map fst (visited_states sv))
      \<and> fst ` set (visited_states sv) \<inter> queued_states sv = {}
      \<and> edges sv = concat (map (\<lambda>(h, s). map (edge_of H h) (get_possible_moves s)) (visited_states sv))
      \<and> (\<forall>(h, s)\<in>set (visited_states sv). \<forall>m\<in>set (get_possible_moves s).
            to_hash H (fst m) \<in> fst ` set (visited_states sv) \<union> queued_states sv)
      \<and> set (queue sv) \<union> snd ` set (visited_states sv) \<subseteq> reachable init
      \<and> (if visited_states sv = [] then queue sv = [init]
         else hd (visited_states sv) = (to_hash H init, init)))"


text \<open>The cells of a geometry tuple, to compare states that differ only in piece ids.\<close>

definition gcells :: "geometry \<Rightarrow> (int \<times> int) set" where
  "gcells g = (case g of (x, y, w, h) \<Rightarrow>
     {(x + dx, y + dy) | dx dy. 0 \<le> dx \<and> dx < w \<and> 0 \<le> dy \<and> dy < h})"

section \<open>The packed binary format\<close>

text \<open>
  The encoder is \<^verbatim>\<open>pack_graph\<close> of \<^verbatim>\<open>scripts/pack_graph.py\<close>; the decoder is the
  TypeScript function \<^verbatim>\<open>parsePackedGraph\<close> that the same file emits. A byte is an
  \<open>8 word\<close>. The positions of the external table are JSON numbers: finite floats, each of
  which is a rational, and \<^verbatim>\<open>value * 1.0\<close> and \<^verbatim>\<open>round\<close> are exact on them, so
  they are modelled as \<open>rat\<close>. The compression of the byte string is library code; the
  model returns the uncompressed bytes, which the source writes to the \<^verbatim>\<open>.bin\<close> file.
\<close>

type_synonym byte = "8 word"

datatype pack_error = StructError | ValueError | LookupKeyError

text \<open>\<^verbatim>\<open>struct.pack\<close> of one field, little endian; out of range raises \<^verbatim>\<open>struct.error\<close>.\<close>

definition le_bytes :: "nat \<Rightarrow> nat \<Rightarrow> byte list" where
  "le_bytes k n = map (\<lambda>i. of_nat (n div 256 ^ i mod 256)) [0..<k]"

definition pack_u8 :: "int \<Rightarrow> pack_error + byte list" where
  "pack_u8 v = (if 0 \<le> v \<and> v \<le> 255 then Inr (le_bytes 1 (nat v)) else Inl StructError)"

definition pack_u16 :: "int \<Rightarrow> pack_error + byte list" where
  "pack_u16 v = (if 0 \<le> v \<and> v \<le> 65535 then Inr (le_bytes 2 (nat v)) else Inl StructError)"

definition pack_u32 :: "int \<Rightarrow> pack_error + byte list" where
  "pack_u32 v = (if 0 \<le> v \<and> v \<le> 4294967295 then Inr (le_bytes 4 (nat v)) else Inl StructError)"

definition pack_i16 :: "int \<Rightarrow> pack_error + byte list" where
  "pack_i16 v =
     (if - 32768 \<le> v \<and> v \<le> 32767 then Inr (le_bytes 2 (nat (v mod 65536))) else Inl StructError)"

text \<open>
  The fields of one \<^verbatim>\<open>struct.pack\<close> call, and the pieces of one \<^verbatim>\<open>b''.join\<close> or
  \<^verbatim>\<open>+=\<close> loop, are produced in order; the first error ends the run.
\<close>

fun pack_all :: "(pack_error + byte list) list \<Rightarrow> pack_error + byte list" where
  "pack_all [] = Inr []"
| "pack_all (r # rs) =
     (case r of
        Inl e \<Rightarrow> Inl e
      | Inr bs \<Rightarrow> (case pack_all rs of Inl e \<Rightarrow> Inl e | Inr cs \<Rightarrow> Inr (bs @ cs)))"

definition MAGIC :: "byte list" where
  "MAGIC = [75, 76, 71, 82]"

definition VERSION :: int where
  "VERSION = 1"

definition POSITION_SCALE :: rat where
  "POSITION_SCALE = 1"

text \<open>Python's \<^verbatim>\<open>round\<close> of a float: to the nearest integer, ties to the even one.\<close>

definition round_half_even :: "rat \<Rightarrow> int" where
  "round_half_even r =
     (let f = \<lfloor>r\<rfloor>; d = r - of_int f in
      if d < 1 / 2 then f else if 1 / 2 < d then f + 1 else if even f then f else f + 1)"

definition quantize_position :: "rat \<Rightarrow> int" where
  "quantize_position v =
     (let scaled = v * POSITION_SCALE in max (- 32768) (min 32767 (round_half_even scaled)))"

text \<open>
  \<^verbatim>\<open>bytes.fromhex\<close>: ASCII whitespace before a byte is skipped, then two hexadecimal
  digits of either case are read; anything else raises ValueError.
\<close>

definition hex_val :: "char \<Rightarrow> nat option" where
  "hex_val c =
     (let n = of_char c :: nat in
      if 48 \<le> n \<and> n \<le> 57 then Some (n - 48)
      else if 97 \<le> n \<and> n \<le> 102 then Some (n - 87)
      else if 65 \<le> n \<and> n \<le> 70 then Some (n - 55)
      else None)"

definition is_space :: "char \<Rightarrow> bool" where
  "is_space c = (of_char c \<in> {32, 9, 10, 11, 12, 13 :: nat})"

fun fromhex :: "string \<Rightarrow> pack_error + byte list" where
  "fromhex [] = Inr []"
| "fromhex (c # cs) =
     (if is_space c then fromhex cs
      else (case cs of
              [] \<Rightarrow> Inl ValueError
            | d # rest \<Rightarrow>
                (case (hex_val c, hex_val d) of
                   (Some hi, Some lo) \<Rightarrow>
                     (case fromhex rest of
                        Inl e \<Rightarrow> Inl e
                      | Inr bs \<Rightarrow> Inr (of_nat (16 * hi + lo) # bs))
                 | _ \<Rightarrow> Inl ValueError)))"

text \<open>One entry of the external position table: \<^verbatim>\<open>{id, x, y, z}\<close>.\<close>

record position_entry =
  pos_id :: string
  pos_x :: rat
  pos_y :: rat
  pos_z :: rat

text \<open>The two dictionaries \<^verbatim>\<open>pos_lookup\<close> and \<^verbatim>\<open>node_id_to_idx\<close>; a later entry wins.\<close>

definition pos_lookup :: "position_entry list \<Rightarrow> string \<rightharpoonup> rat \<times> rat \<times> rat" where
  "pos_lookup positions =
     fold (\<lambda>p m. m(pos_id p \<mapsto> (pos_x p, pos_y p, pos_z p))) positions Map.empty"

definition node_id_to_idx :: "string node list \<Rightarrow> string \<rightharpoonup> nat" where
  "node_id_to_idx nodes =
     fold (\<lambda>(idx, node) m. m(n_id node \<mapsto> idx)) (enumerate 0 nodes) Map.empty"

definition direction_code :: "string \<Rightarrow> int" where
  "direction_code d =
     (if d = ''up'' then 0 else if d = ''down'' then 1 else if d = ''left'' then 2
      else if d = ''right'' then 3 else 0)"

definition pack_header :: "string graph \<Rightarrow> pack_error + byte list" where
  "pack_header statespace =
     pack_all [Inr MAGIC, pack_u16 VERSION,
               pack_u32 (int (length (g_nodes statespace))),
               pack_u32 (int (length (g_edges statespace))),
               pack_u16 (int (length (g_pieces statespace))),
               pack_u8 (g_board_width statespace), pack_u8 (g_board_height statespace),
               pack_u16 (\<lfloor>POSITION_SCALE * 10\<rfloor>)]"

definition pack_piece :: "piece_def \<Rightarrow> pack_error + byte list" where
  "pack_piece p = pack_all [pack_u8 (d_width p), pack_u8 (d_height p)]"

definition pack_node_positions :: "string node \<Rightarrow> pack_error + byte list" where
  "pack_node_positions node =
     pack_all (map (\<lambda>(px, py). pack_all [pack_u8 px, pack_u8 py]) (n_positions node))"

definition pack_node_xyz :: "(string \<rightharpoonup> rat \<times> rat \<times> rat) \<Rightarrow> string node \<Rightarrow> pack_error + byte list" where
  "pack_node_xyz lookup node =
     (case lookup (n_id node) of
        Some (x, y, z) \<Rightarrow>
          pack_all [pack_i16 (quantize_position x), pack_i16 (quantize_position y),
                    pack_i16 (quantize_position z)]
      | None \<Rightarrow> pack_all [pack_i16 0, pack_i16 0, pack_i16 0])"

definition pack_edge :: "(string \<rightharpoonup> nat) \<Rightarrow> string edge \<Rightarrow> pack_error + byte list" where
  "pack_edge idx e =
     (case idx (e_source e) of
        None \<Rightarrow> Inl LookupKeyError
      | Some src_idx \<Rightarrow>
          (case idx (e_target e) of
             None \<Rightarrow> Inl LookupKeyError
           | Some tgt_idx \<Rightarrow>
               pack_all [pack_u32 (int src_idx), pack_u32 (int tgt_idx),
                         pack_u8 (e_piece_id e), pack_u8 (direction_code (e_direction e))]))"

definition pack_graph :: "string graph \<Rightarrow> position_entry list \<Rightarrow> pack_error + byte list" where
  "pack_graph statespace positions =
     (let lookup = pos_lookup positions;
          idx = node_id_to_idx (g_nodes statespace)
      in pack_all
           [pack_header statespace,
            pack_all (map pack_piece (g_pieces statespace)),
            pack_all (map (\<lambda>node. fromhex (n_id node)) (g_nodes statespace)),
            pack_all (map pack_node_positions (g_nodes statespace)),
            pack_all (map (pack_node_xyz lookup) (g_nodes statespace)),
            pack_all (map (pack_edge idx) (g_edges statespace))])"

subsection \<open>The decoder\<close>

text \<open>
  A read of a \<^verbatim>\<open>DataView\<close> outside the buffer throws RangeError; an index of the
  \<^verbatim>\<open>Uint8Array\<close> outside the buffer is \<^verbatim>\<open>undefined\<close>, whose \<^verbatim>\<open>toString\<close> throws
  TypeError; a wrong tag throws \<^verbatim>\<open>Error('Invalid magic')\<close>.
\<close>

datatype parse_error = InvalidMagic | RangeError | TypeError

definition le_value :: "byte list \<Rightarrow> nat" where
  "le_value bs = foldr (\<lambda>b acc. unat b + 256 * acc) bs 0"

definition getUint :: "nat \<Rightarrow> byte list \<Rightarrow> nat \<Rightarrow> parse_error + nat" where
  "getUint k buffer offset =
     (if offset + k \<le> length buffer then Inr (le_value (take k (drop offset buffer)))
      else Inl RangeError)"

definition getUint8 :: "byte list \<Rightarrow> nat \<Rightarrow> parse_error + nat" where
  "getUint8 = getUint 1"

definition getUint16 :: "byte list \<Rightarrow> nat \<Rightarrow> parse_error + nat" where
  "getUint16 = getUint 2"

definition getUint32 :: "byte list \<Rightarrow> nat \<Rightarrow> parse_error + nat" where
  "getUint32 = getUint 4"

definition getInt16 :: "byte list \<Rightarrow> nat \<Rightarrow> parse_error + int" where
  "getInt16 buffer offset =
     (case getUint 2 buffer offset of
        Inl e \<Rightarrow> Inl e
      | Inr n \<Rightarrow> Inr (if n < 32768 then int n else int n - 65536))"

definition bind_parse :: "parse_error + 'a \<Rightarrow> ('a \<Rightarrow> parse_error + 'b) \<Rightarrow> parse_error + 'b" where
  "bind_parse m f = (case m of Inl e \<Rightarrow> Inl e | Inr x \<Rightarrow> f x)"

text \<open>
  A loop \<^verbatim>\<open>for (let i = 0; i < n; i++) { item = read(offset); offset += step }\<close>.
\<close>

fun read_array ::
  "(byte list \<Rightarrow> nat \<Rightarrow> parse_error + 'a) \<Rightarrow> nat \<Rightarrow> byte list \<Rightarrow> nat \<Rightarrow> nat \<Rightarrow> parse_error + 'a list" where
  "read_array rd step buffer offset 0 = Inr []"
| "read_array rd step buffer offset (Suc n) =
     bind_parse (rd buffer offset) (\<lambda>item.
     bind_parse (read_array rd step buffer (offset + step) n) (\<lambda>items.
     Inr (item # items)))"

definition read_pair :: "byte list \<Rightarrow> nat \<Rightarrow> parse_error + nat \<times> nat" where
  "read_pair buffer offset =
     bind_parse (getUint8 buffer offset) (\<lambda>a.
     bind_parse (getUint8 buffer (offset + 1)) (\<lambda>b. Inr (a, b)))"

definition hex_digits :: string where
  "hex_digits = ''0123456789abcdef''"

definition byte_hex :: "byte \<Rightarrow> string" where
  "byte_hex b = [hex_digits ! (unat b div 16), hex_digits ! (unat b mod 16)]"

definition read_node_id :: "byte list \<Rightarrow> nat \<Rightarrow> parse_error + string" where
  "read_node_id buffer offset =
     (if offset + 16 \<le> length buffer
      then Inr (concat (map byte_hex (take 16 (drop offset buffer))))
      else Inl TypeError)"

text \<open>
  A JavaScript number that results from \<^verbatim>\<open>getInt16(...) / positionScale\<close> with
  \<^verbatim>\<open>positionScale = raw / 10\<close>: the quotient as a rational (JavaScript rounds it to a
  double, which changes nothing for the scale 10 that the encoder writes), or an infinity
  or NaN when the scale is zero.
\<close>

datatype jsnum = Num rat | PosInfinity | NegInfinity | NaN

definition dequantize :: "nat \<Rightarrow> int \<Rightarrow> jsnum" where
  "dequantize raw v =
     (if raw = 0 then (if 0 < v then PosInfinity else if v < 0 then NegInfinity else NaN)
      else Num (of_int v / (of_nat raw / 10)))"

definition read_xyz :: "nat \<Rightarrow> byte list \<Rightarrow> nat \<Rightarrow> parse_error + jsnum \<times> jsnum \<times> jsnum" where
  "read_xyz raw buffer offset =
     bind_parse (getInt16 buffer offset) (\<lambda>x.
     bind_parse (getInt16 buffer (offset + 2)) (\<lambda>y.
     bind_parse (getInt16 buffer (offset + 4)) (\<lambda>z.
     Inr (dequantize raw x, dequantize raw y, dequantize raw z))))"

record packed_edge =
  pe_source :: "string option"
  pe_target :: "string option"
  pe_piece_id :: nat
  pe_direction :: string

definition directionMap :: "string list" where
  "directionMap = [''up'', ''down'', ''left'', ''right'']"

text \<open>An array index outside the array is \<^verbatim>\<open>undefined\<close>: \<open>None\<close>.\<close>

definition js_index :: "'a list \<Rightarrow> nat \<Rightarrow> 'a option" where
  "js_index xs i = (if i < length xs then Some (xs ! i) else None)"

definition read_edge :: "string list \<Rightarrow> byte list \<Rightarrow> nat \<Rightarrow> parse_error + packed_edge" where
  "read_edge nodeIds buffer offset =
     bind_parse (getUint32 buffer offset) (\<lambda>srcIdx.
     bind_parse (getUint32 buffer (offset + 4)) (\<lambda>tgtIdx.
     bind_parse (getUint8 buffer (offset + 8)) (\<lambda>pieceId.
     bind_parse (getUint8 buffer (offset + 9)) (\<lambda>directionCode.
     Inr \<lparr>pe_source = js_index nodeIds srcIdx, pe_target = js_index nodeIds tgtIdx,
          pe_piece_id = pieceId,
          pe_direction = (case js_index directionMap directionCode of
                            Some d \<Rightarrow> d | None \<Rightarrow> ''up'')\<rparr>))))"

record packed_node =
  pn_id :: string
  pn_positions :: "(nat \<times> nat) list"
  pn_x :: jsnum
  pn_y :: jsnum
  pn_z :: jsnum

record packed_graph_data =
  nodeCount :: nat
  edgeCount :: nat
  pieceCount :: nat
  boardWidth :: nat
  boardHeight :: nat
  positionScaleRaw :: nat
  pg_pieces :: "(nat \<times> nat) list"
  pg_nodes :: "packed_node list"
  pg_edges :: "packed_edge list"

definition parsePackedGraph :: "byte list \<Rightarrow> parse_error + packed_graph_data" where
  "parsePackedGraph buffer =
     bind_parse (read_array getUint8 1 buffer 0 4) (\<lambda>magic.
     if magic \<noteq> map unat MAGIC then Inl InvalidMagic
     else
     bind_parse (getUint16 buffer 4) (\<lambda>version.
     bind_parse (getUint32 buffer 6) (\<lambda>nodeCount.
     bind_parse (getUint32 buffer 10) (\<lambda>edgeCount.
     bind_parse (getUint16 buffer 14) (\<lambda>pieceCount.
     bind_parse (getUint8 buffer 16) (\<lambda>boardWidth.
     bind_parse (getUint8 buffer 17) (\<lambda>boardHeight.
     bind_parse (getUint16 buffer 18) (\<lambda>positionScaleRaw.
     let off1 = 20; off2 = off1 + 2 * pieceCount; off3 = off2 + 16 * nodeCount;
         off4 = off3 + 2 * pieceCount * nodeCount; off5 = off4 + 6 * nodeCount
     in
     bind_parse (read_array read_pair 2 buffer off1 pieceCount) (\<lambda>pieces.
     bind_parse (read_array read_node_id 16 buffer off2 nodeCount) (\<lambda>nodeIds.
     bind_parse (read_array (\<lambda>buffer offset. read_array read_pair 2 buffer offset pieceCount)
                   (2 * pieceCount) buffer off3 nodeCount) (\<lambda>nodePiecePositions.
     bind_parse (read_array (read_xyz positionScaleRaw) 6 buffer off4 nodeCount) (\<lambda>node3DPositions.
     bind_parse (read_array (read_edge nodeIds) 10 buffer off5 edgeCount) (\<lambda>edges.
     Inr \<lparr>nodeCount = nodeCount, edgeCount = edgeCount, pieceCount = pieceCount,
          boardWidth = boardWidth, boardHeight = boardHeight,
          positionScaleRaw = positionScaleRaw, pg_pieces = pieces,
          pg_nodes = map (\<lambda>(id, positions, x, y, z).
                            \<lparr>pn_id = id, pn_positions = positions, pn_x = x, pn_y = y, pn_z = z\<rparr>)
                         (zip nodeIds (zip nodePiecePositions node3DPositions)),
          pg_edges = edges\<rparr>)))))))))))))"


subsection \<open>Replaying a recorded move\<close>

text \<open>
  The replay of an edge in the specification's words: the piece with the recorded id is
  translated by one unit in the recorded direction and all other pieces stay.
\<close>

definition apply_move :: "kstate \<Rightarrow> int \<Rightarrow> string \<Rightarrow> kstate" where
  "apply_move s piece_id direction =
     (case find (\<lambda>(dx, dy, name). name = direction) directions of
        None \<Rightarrow> s
      | Some (dx, dy, name) \<Rightarrow>
          s\<lparr>pieces := map (\<lambda>p. if p_id p = piece_id
                                then p\<lparr>p_x := p_x p + dx, p_y := p_y p + dy\<rparr> else p)
                          (pieces s)\<rparr>)"

text \<open>A board of two by two cells with two unit pieces, which can change places.\<close>

definition two_singles :: kstate where
  "two_singles =
     \<lparr>pieces = [mk_piece 0 0 0 1 1, mk_piece 1 1 0 1 1], board_width = 2, board_height = 2\<rparr>"

text \<open>
  A board of three by three cells on which the first piece can move in all four directions
  and the second in two; the ids are not in list order.
\<close>

definition open_board :: kstate where
  "open_board =
     \<lparr>pieces = [mk_piece 5 1 1 1 1, mk_piece 2 0 0 1 1], board_width = 3, board_height = 3\<rparr>"

subsection \<open>What the decoder returns for an encoded graph\<close>

text \<open>
  The number of bytes that the counts in the header of a buffer call for: the header,
  two bytes per piece, sixteen per node fingerprint, two per piece and node, six per 3D
  position and ten per edge.
\<close>

definition declared_size :: "byte list \<Rightarrow> nat" where
  "declared_size buffer =
     (let nodeCount = le_value (take 4 (drop 6 buffer));
          edgeCount = le_value (take 4 (drop 10 buffer));
          pieceCount = le_value (take 2 (drop 14 buffer))
      in 20 + 2 * pieceCount + 16 * nodeCount + 2 * pieceCount * nodeCount
            + 6 * nodeCount + 10 * edgeCount)"

text \<open>
  The three integers that the encoder writes for the 3D position of a node, and the node
  and the edge that the decoder rebuilds from the bytes of a node and an edge.
\<close>

definition quantized_xyz :: "(string \<rightharpoonup> rat \<times> rat \<times> rat) \<Rightarrow> string node \<Rightarrow> int \<times> int \<times> int" where
  "quantized_xyz lookup node =
     (case lookup (n_id node) of
        Some (x, y, z) \<Rightarrow> (quantize_position x, quantize_position y, quantize_position z)
      | None \<Rightarrow> (0, 0, 0))"

definition decoded_node :: "(string \<rightharpoonup> rat \<times> rat \<times> rat) \<Rightarrow> string node \<Rightarrow> packed_node" where
  "decoded_node lookup node =
     (case quantized_xyz lookup node of
        (a, b, c) \<Rightarrow>
          \<lparr>pn_id = n_id node,
           pn_positions = map (\<lambda>(px, py). (nat px, nat py)) (n_positions node),
           pn_x = Num (of_int a), pn_y = Num (of_int b), pn_z = Num (of_int c)\<rparr>)"

definition decoded_edge :: "string edge \<Rightarrow> packed_edge" where
  "decoded_edge e =
     \<lparr>pe_source = Some (e_source e), pe_target = Some (e_target e),
      pe_piece_id = nat (e_piece_id e), pe_direction = e_direction e\<rparr>"

text \<open>
  What every graph of the explorer has: fingerprints of 32 lowercase hexadecimal digits,
  one position per piece in every node, and a direction name on every edge.
\<close>

definition well_formed_graph :: "string graph \<Rightarrow> bool" where
  "well_formed_graph g =
     ((\<forall>node\<in>set (g_nodes g).
         length (n_id node) = 32 \<and> set (n_id node) \<subseteq> set hex_digits
         \<and> length (n_positions node) = length (g_pieces g))
      \<and> (\<forall>e\<in>set (g_edges g). e_direction e \<in> set directionMap))"

text \<open>
  The part of the loop invariant that does not depend on the digest being collision-free:
  the queue and the set of queued fingerprints agree, every state has the number of pieces
  of the initial state, every key of the visited table is a value of the digest and every
  edge carries a direction name.
\<close>

definition shape_inv :: "(geometry list \<Rightarrow> 'h) \<Rightarrow> nat \<Rightarrow> 'h solver \<Rightarrow> bool" where
  "shape_inv H n sv =
     (length (pieces (initial_state sv)) = n
      \<and> queued_states sv = to_hash H ` set (queue sv)
      \<and> distinct (map (to_hash H) (queue sv))
      \<and> (\<forall>s\<in>set (queue sv). length (pieces s) = n)
      \<and> (\<forall>(h, s)\<in>set (visited_states sv). h \<in> range H \<and> length (pieces s) = n)
      \<and> (\<forall>e\<in>set (edges sv). e_direction e \<in> set directionMap))"

text \<open>
  A board of two by one cells with one unit piece. \<open>corridor_md5\<close> is md5 on the two
  tuples that this puzzle reaches, \<^verbatim>\<open>((0, 0, 1, 1),)\<close> and \<^verbatim>\<open>((1, 0, 1, 1),)\<close>;
  \<open>corridor_graph\<close> is the graph that \<^verbatim>\<open>compute_state_space\<close> returns for it, and
  \<open>far_positions\<close> a position table with one entry outside the signed 16 bit range.
\<close>

definition corridor :: kstate where
  "corridor = \<lparr>pieces = [mk_piece 0 0 0 1 1], board_width = 2, board_height = 1\<rparr>"

definition corridor_md5 :: "geometry list \<Rightarrow> string" where
  "corridor_md5 t =
     (if t = [(0, 0, 1, 1)] then ''25f4e77213bca1f0180a975bc4cb53db''
      else if t = [(1, 0, 1, 1)] then ''5000c709bc3002ab02087e4655306adb''
      else ''00000000000000000000000000000000'')"

definition corridor_graph :: "string graph" where
  "corridor_graph =
     \<lparr>total_nodes = 2, total_edges = 2, g_board_width = 2, g_board_height = 1,
      g_pieces = [\<lparr>d_id = 0, d_width = 1, d_height = 1\<rparr>],
      g_nodes = [\<lparr>n_id = ''25f4e77213bca1f0180a975bc4cb53db'', n_positions = [(0, 0)]\<rparr>,
                 \<lparr>n_id = ''5000c709bc3002ab02087e4655306adb'', n_positions = [(1, 0)]\<rparr>],
      g_edges = [\<lparr>e_source = ''25f4e77213bca1f0180a975bc4cb53db'',
                  e_target = ''5000c709bc3002ab02087e4655306adb'',
                  e_piece_id = 0, e_direction = ''right''\<rparr>,
                 \<lparr>e_source = ''5000c709bc3002ab02087e4655306adb'',
                  e_target = ''25f4e77213bca1f0180a975bc4cb53db'',
                  e_piece_id = 0, e_direction = ''left''\<rparr>]\<rparr>"

definition far_positions :: "position_entry list" where
  "far_positions =
     [\<lparr>pos_id = ''25f4e77213bca1f0180a975bc4cb53db'', pos_x = 5 / 2, pos_y = - 7 / 2,
       pos_z = 40000\<rparr>]"

text \<open>
  The 90 bytes that \<^verbatim>\<open>pack_graph\<close> writes to the \<^verbatim>\<open>.bin\<close> file for \<open>corridor_graph\<close>
  and \<open>far_positions\<close>.
\<close>

definition corridor_packed :: "byte list" where
  "corridor_packed =
     [75, 76, 71, 82, 1, 0, 2, 0, 0, 0, 2, 0, 0, 0, 1, 0, 2, 1, 10, 0, 1, 1,
      37, 244, 231, 114, 19, 188, 161, 240, 24, 10, 151, 91, 196, 203, 83, 219,
      80, 0, 199, 9, 188, 48, 2, 171, 2, 8, 126, 70, 85, 48, 106, 219,
      0, 0, 1, 0, 2, 0, 252, 255, 255, 127, 0, 0, 0, 0, 0, 0,
      0, 0, 0, 0, 1, 0, 0, 0, 0, 3, 1, 0, 0, 0, 0, 0, 0, 0, 0, 2]"

section \<open>Properties of pieces, states and moves\<close>

lemma range_py_set: "set (range_py n) = {0..<n}"
  by (auto simp: range_py_def)

lemma fold_insert_set: "fold (\<lambda>a. insert (f a)) xs = (\<lambda>S. f ` set xs \<union> S)"
proof
  fix S show "fold (\<lambda>a. insert (f a)) xs S = f ` set xs \<union> S"
    by (induction xs arbitrary: S) auto
qed

lemma fold_union_set: "fold (\<lambda>a A. g a \<union> A) xs S = (\<Union>a\<in>set xs. g a) \<union> S"
  by (induction xs arbitrary: S) auto

lemma get_positions_eq:
  "get_positions p = {(p_x p + dx, p_y p + dy) | dx dy. 0 \<le> dx \<and> dx < p_width p \<and> 0 \<le> dy \<and> dy < p_height p}"
  unfolding get_positions_def
  by (auto simp: fold_insert_set fold_union_set range_py_set)

lemma fold_try_direction:
  "fold (try_direction s piece) ds acc =
   acc @ map (\<lambda>(dx, dy, direction).
               (move_pieces s (p_id piece) (p_x piece + dx) (p_y piece + dy), p_id piece, direction))
            (filter (\<lambda>(dx, dy, direction).
               is_valid_position s (p_id piece) (p_x piece + dx) (p_y piece + dy)
                 (p_width piece) (p_height piece)) ds)"
  by (induction ds arbitrary: acc) (auto simp: try_direction_def Let_def)

lemma fold_pieces_moves:
  "fold (\<lambda>piece moves. fold (try_direction s piece) directions moves) ps acc =
   acc @ concat (map (\<lambda>piece.
        map (\<lambda>(dx, dy, direction).
               (move_pieces s (p_id piece) (p_x piece + dx) (p_y piece + dy), p_id piece, direction))
            (filter (\<lambda>(dx, dy, direction).
               is_valid_position s (p_id piece) (p_x piece + dx) (p_y piece + dy)
                 (p_width piece) (p_height piece)) directions)) ps)"
  by (induction ps arbitrary: acc) (simp_all add: fold_try_direction)

lemma get_possible_moves_eq: "get_possible_moves s = moves_in_order s"
  by (simp add: get_possible_moves_def moves_in_order_def fold_pieces_moves)

lemma occupied_fold:
  "fold (\<lambda>piece occupied pos.
             if pos \<in> get_positions piece then Some (p_id piece) else occupied pos) ps m pos
   = (if \<exists>p\<in>set ps. pos \<in> get_positions p
      then Some (p_id (last (filter (\<lambda>p. pos \<in> get_positions p) ps))) else m pos)"
  by (induction ps rule: rev_induct) auto

lemma occupied_None:
  "get_occupied_positions s pos = None \<longleftrightarrow> (\<forall>p\<in>set (pieces s). pos \<notin> get_positions p)"
  by (simp add: get_occupied_positions_def occupied_fold)

lemma occupied_Some:
  assumes "get_occupied_positions s pos = Some i"
  shows "\<exists>p\<in>set (pieces s). pos \<in> get_positions p \<and> p_id p = i"
proof -
  let ?f = "filter (\<lambda>p. pos \<in> get_positions p) (pieces s)"
  from assms have ex: "\<exists>p\<in>set (pieces s). pos \<in> get_positions p"
    and i: "i = p_id (last ?f)"
    by (auto simp: get_occupied_positions_def occupied_fold split: if_splits)
  from ex have "?f \<noteq> []" by (auto simp: filter_empty_conv)
  hence "last ?f \<in> set ?f" by (rule last_in_set)
  with i show ?thesis by auto
qed

lemma disjoint_owner:
  assumes "pieces_disjoint s" "p \<in> set (pieces s)" "q \<in> set (pieces s)"
    "pos \<in> get_positions p" "pos \<in> get_positions q"
  shows "p = q"
proof -
  obtain i j where i: "i < length (pieces s)" "pieces s ! i = p"
    and j: "j < length (pieces s)" "pieces s ! j = q"
    using assms(2,3) by (auto simp: in_set_conv_nth)
  have d: "\<And>a b. a < b \<Longrightarrow> b < length (pieces s) \<Longrightarrow>
      get_positions (pieces s ! a) \<inter> get_positions (pieces s ! b) = {}"
    using assms(1) by (simp add: pieces_disjoint_def sorted_wrt_iff_nth_less)
  show ?thesis
  proof (cases i j rule: linorder_cases)
    case less with d[of i j] i j assms(4,5) show ?thesis by auto
  next
    case equal with i j show ?thesis by simp
  next
    case greater with d[of j i] i j assms(4,5) show ?thesis by auto
  qed
qed

lemma occupied_owner:
  assumes "pieces_disjoint s" "p \<in> set (pieces s)" "pos \<in> get_positions p"
  shows "get_occupied_positions s pos = Some (p_id p)"
proof -
  obtain i where i: "get_occupied_positions s pos = Some i"
    using assms occupied_None[of s pos] by auto
  from occupied_Some[OF i] obtain q where "q \<in> set (pieces s)" "pos \<in> get_positions q" "p_id q = i"
    by auto
  with disjoint_owner[OF assms(1) assms(2) this(1) assms(3) this(2)] i show ?thesis by simp
qed

lemma is_valid_position_iff:
  "is_valid_position s i nx ny w h \<longleftrightarrow>
     0 \<le> nx \<and> 0 \<le> ny \<and> nx + w \<le> board_width s \<and> ny + h \<le> board_height s \<and>
     (\<forall>dx dy. 0 \<le> dx \<and> dx < w \<and> 0 \<le> dy \<and> dy < h \<longrightarrow>
        get_occupied_positions s (nx + dx, ny + dy) = None \<or>
        get_occupied_positions s (nx + dx, ny + dy) = Some i)"
  unfolding is_valid_position_def Let_def list_all_iff range_py_set
  by (simp only: atLeastLessThan_iff Ball_def not_less not_le de_Morgan_conj not_not split: if_split) auto


lemma moved_positions:
  "get_positions \<lparr>p_id = i, p_x = nx, p_y = ny, p_width = w, p_height = h\<rparr> =
   {(nx + dx, ny + dy) | dx dy. 0 \<le> dx \<and> dx < w \<and> 0 \<le> dy \<and> dy < h}"
  by (simp add: get_positions_eq)

lemma rebuild_same: "\<lparr>p_id = p_id p, p_x = p_x p, p_y = p_y p, p_width = p_width p, p_height = p_height p\<rparr> = (p::piece)"
  by simp

lemma valid_avoids_others:
  assumes dis: "pieces_disjoint s" and v: "is_valid_position s i nx ny w h"
    and q: "q \<in> set (pieces s)" "p_id q \<noteq> i"
  shows "{(nx + dx, ny + dy) | dx dy. 0 \<le> dx \<and> dx < w \<and> 0 \<le> dy \<and> dy < h} \<inter> get_positions q = {}"
proof (rule ccontr)
  assume "\<not> ?thesis"
  then obtain dx dy where c: "0 \<le> dx" "dx < w" "0 \<le> dy" "dy < h" "(nx + dx, ny + dy) \<in> get_positions q"
    by auto
  from occupied_owner[OF dis q(1) c(5)] have "get_occupied_positions s (nx + dx, ny + dy) = Some (p_id q)" .
  moreover from v c have "get_occupied_positions s (nx + dx, ny + dy) = None \<or>
        get_occupied_positions s (nx + dx, ny + dy) = Some i"
    by (simp add: is_valid_position_iff)
  ultimately show False using q(2) by auto
qed

lemma move_pieces_disjoint:
  assumes u: "ids_unique s" and dis: "pieces_disjoint s"
    and p: "piece \<in> set (pieces s)"
    and v: "is_valid_position s (p_id piece) nx ny (p_width piece) (p_height piece)"
  shows "pieces_disjoint (move_pieces s (p_id piece) nx ny)"
proof -
  let ?ps = "pieces s"
  let ?R = "{(nx + dx, ny + dy) | dx dy. 0 \<le> dx \<and> dx < p_width piece \<and> 0 \<le> dy \<and> dy < p_height piece}"
  let ?f = "\<lambda>p. if p_id p = p_id piece
                         then \<lparr>p_id = p_id p, p_x = nx, p_y = ny,
                               p_width = p_width p, p_height = p_height p\<rparr>
                         else \<lparr>p_id = p_id p, p_x = p_x p, p_y = p_y p,
                               p_width = p_width p, p_height = p_height p\<rparr>"
  have same: "\<And>q. q \<in> set ?ps \<Longrightarrow> p_id q = p_id piece \<Longrightarrow> q = piece"
    using u p by (auto simp: ids_unique_def distinct_map inj_on_def)
  have "get_positions (?f (?ps ! a)) \<inter> get_positions (?f (?ps ! b)) = {}"
    if ab: "a < b" "b < length ?ps" for a b
  proof -
    from ab have ma: "?ps ! a \<in> set ?ps" and mb: "?ps ! b \<in> set ?ps" by auto
    from u ab have ne: "p_id (?ps ! a) \<noteq> p_id (?ps ! b)"
      by (auto simp: ids_unique_def distinct_conv_nth)
    from dis ab have old: "get_positions (?ps ! a) \<inter> get_positions (?ps ! b) = {}"
      by (simp add: pieces_disjoint_def sorted_wrt_iff_nth_less)
    show ?thesis
    proof (cases "p_id (?ps ! a) = p_id piece")
      case True
      with ne have nb: "p_id (?ps ! b) \<noteq> p_id piece" by simp
      from same[OF ma True] have "?ps ! a = piece" .
      with valid_avoids_others[OF dis v mb nb] True nb show ?thesis
        by (simp add: moved_positions rebuild_same)
    next
      case False
      show ?thesis
      proof (cases "p_id (?ps ! b) = p_id piece")
        case True
        from same[OF mb True] have "?ps ! b = piece" .
        with valid_avoids_others[OF dis v ma False] True False show ?thesis
          by (simp add: moved_positions rebuild_same Int_commute)
      next
        case F2: False
        with False old show ?thesis by (simp add: rebuild_same)
      qed
    qed
  qed
  thus ?thesis
    by (simp add: pieces_disjoint_def move_pieces_def sorted_wrt_iff_nth_less)
qed

lemma move_in_bounds:
  assumes b: "in_bounds s"
    and v: "is_valid_position s i nx ny w h"
    and same: "\<forall>q\<in>set (pieces s). p_id q = i \<longrightarrow> p_width q = w \<and> p_height q = h"
  shows "in_bounds (move_pieces s i nx ny)"
proof -
  from v have bd: "0 \<le> nx" "0 \<le> ny" "nx + w \<le> board_width s" "ny + h \<le> board_height s"
    by (simp_all add: is_valid_position_iff)
  have "0 \<le> cx \<and> cx < board_width s \<and> 0 \<le> cy \<and> cy < board_height s"
    if q: "q \<in> set (pieces s)"
      and c: "(cx, cy) \<in> get_positions (if p_id q = i
                         then \<lparr>p_id = p_id q, p_x = nx, p_y = ny,
                               p_width = p_width q, p_height = p_height q\<rparr>
                         else \<lparr>p_id = p_id q, p_x = p_x q, p_y = p_y q,
                               p_width = p_width q, p_height = p_height q\<rparr>)" for q cx cy
  proof (cases "p_id q = i")
    case True
    with same q have "p_width q = w" "p_height q = h" by auto
    with c bd True show ?thesis by (auto simp: moved_positions)
  next
    case False
    with c have "(cx, cy) \<in> get_positions q" by (simp add: rebuild_same)
    with b q show ?thesis by (auto simp: in_bounds_def)
  qed
  thus ?thesis
    unfolding in_bounds_def move_pieces_def by (auto simp del: One_nat_def)
qed

lemma move_ids: "map p_id (pieces (move_pieces s i nx ny)) = map p_id (pieces s)"
  by (simp add: move_pieces_def)

lemma in_moves_iff:
  "(s', i, d) \<in> set (get_possible_moves s) \<longleftrightarrow>
   (\<exists>piece\<in>set (pieces s). \<exists>(dx, dy, direction)\<in>set directions.
      is_valid_position s (p_id piece) (p_x piece + dx) (p_y piece + dy) (p_width piece) (p_height piece)
      \<and> s' = move_pieces s (p_id piece) (p_x piece + dx) (p_y piece + dy) \<and> i = p_id piece \<and> d = direction)"
  unfolding get_possible_moves_eq moves_in_order_def set_concat set_map set_filter
  by (auto simp: image_iff)


text \<open>
  C8 (first half, as the code has it): the constructor validates nothing. A piece with a
  negative id, zero width and negative height is built without an error.
\<close>

theorem Piece_accepts_malformed:
  "Piece (-1) 0 0 0 (-2) =
     Inr \<lparr>p_id = -1, p_x = 0, p_y = 0, p_width = 0, p_height = -2\<rparr>
   \<and> Piece (-1) 0 0 0 (-2) \<noteq> Inl InvalidPieceError"
  by (simp add: Piece_def)

text \<open>
  C8 (amended): construction never fails, and for every piece the occupied cells are the
  set of \<open>(x + dx, y + dy)\<close> with \<open>0 \<le> dx < width\<close> and \<open>0 \<le> dy < height\<close>, which is
  empty when the width or the height is not positive.
\<close>

theorem Piece_total_occupied_cells:
  "(\<exists>p. Piece i x y w h = Inr p \<and> p_id p = i \<and>
        get_positions p =
          {(x + dx, y + dy) | dx dy. 0 \<le> dx \<and> dx < w \<and> 0 \<le> dy \<and> dy < h})"
  by (simp add: Piece_def get_positions_eq)

text \<open>
  C4: two states whose multisets of \<open>(x, y, width, height)\<close> tuples are equal have the
  same fingerprint, whatever the order of their piece lists, their piece ids and their
  boards.
\<close>

theorem to_hash_geometry_only:
  assumes "mset (map geom (pieces s)) = mset (map geom (pieces t))"
  shows "to_hash H s = to_hash H t"
proof -
  have "sort (map geom (pieces s)) = sort (map geom (pieces t))"
    using assms by (intro properties_for_sort) simp_all
  thus ?thesis by (simp add: to_hash_def to_tuple_def)
qed

theorem to_hash_geometry_only_witness:
  "mset (map geom (pieces create_simple_klotski)) =
   mset (map geom [mk_piece 7 1 2 1 1, mk_piece 3 2 0 1 2, mk_piece 2 0 0 2 2, mk_piece 0 0 2 1 1])
   \<and> to_hash (\<lambda>t. t) create_simple_klotski =
     to_hash (\<lambda>t. t)
       \<lparr>pieces = [mk_piece 7 1 2 1 1, mk_piece 3 2 0 1 2, mk_piece 2 0 0 2 2, mk_piece 0 0 2 1 1],
        board_width = 3, board_height = 3\<rparr>"
proof -
  let ?t = "\<lparr>pieces = [mk_piece 7 1 2 1 1, mk_piece 3 2 0 1 2, mk_piece 2 0 0 2 2, mk_piece 0 0 2 1 1],
        board_width = 3, board_height = 3\<rparr>"
  have h: "mset (map geom (pieces create_simple_klotski)) = mset (map geom (pieces ?t))"
    by (simp add: create_simple_klotski_def mk_piece_def geom_def)
  from to_hash_geometry_only [OF h, of "\<lambda>t. t"] h show ?thesis by simp
qed

lemma move_keeps_invariant:
  assumes "ids_unique s" "state_invariant s" "(s', i, d) \<in> set (get_possible_moves s)"
  shows "ids_unique s' \<and> state_invariant s'"
proof -
  from assms(3) obtain piece dx dy where p: "piece \<in> set (pieces s)"
    and v: "is_valid_position s (p_id piece) (p_x piece + dx) (p_y piece + dy) (p_width piece) (p_height piece)"
    and s': "s' = move_pieces s (p_id piece) (p_x piece + dx) (p_y piece + dy)"
    by (auto simp: in_moves_iff)
  have same: "\<forall>q\<in>set (pieces s). p_id q = p_id piece \<longrightarrow> p_width q = p_width piece \<and> p_height q = p_height piece"
    using assms(1) p by (auto simp: ids_unique_def distinct_map inj_on_def)
  from assms(2) have "pieces_disjoint s" "in_bounds s" by (simp_all add: state_invariant_def)
  with move_pieces_disjoint[OF assms(1) this(1) p v] move_in_bounds[OF this(2) v same] assms(1)
  show ?thesis by (simp add: s' state_invariant_def ids_unique_def move_ids)
qed


section \<open>Properties of the exploration\<close>

lemma record_move_fields:
  "visited_states (record_move H h m sv) = visited_states sv"
  "initial_state (record_move H h m sv) = initial_state sv"
  "edges (record_move H h m sv) = edges sv @ [edge_of H h m]"
  "queue (record_move H h m sv) =
     (if to_hash H (fst m) \<notin> fst ` set (visited_states sv) \<and> to_hash H (fst m) \<notin> queued_states sv
      then queue sv @ [fst m] else queue sv)"
  "queued_states (record_move H h m sv) =
     (if to_hash H (fst m) \<notin> fst ` set (visited_states sv) \<and> to_hash H (fst m) \<notin> queued_states sv
      then insert (to_hash H (fst m)) (queued_states sv) else queued_states sv)"
  by (auto simp: record_move_def edge_of_def Let_def split: prod.splits)

lemma fold_record_move_const:
  "visited_states (fold (record_move H h) ms sv) = visited_states sv"
  "initial_state (fold (record_move H h) ms sv) = initial_state sv"
  by (induction ms arbitrary: sv) (simp_all add: record_move_fields)

lemma fold_record_move_edges:
  "edges (fold (record_move H h) ms sv) = edges sv @ map (edge_of H h) ms"
  by (induction ms arbitrary: sv) (simp_all add: record_move_fields)

lemma fold_record_move_queue:
  assumes "queued_states sv = to_hash H ` set (queue sv)" "distinct (map (to_hash H) (queue sv))"
  shows "\<exists>new. queue (fold (record_move H h) ms sv) = queue sv @ new
           \<and> set new \<subseteq> fst ` set ms
           \<and> (\<forall>s\<in>set new. to_hash H s \<notin> fst ` set (visited_states sv))
           \<and> queued_states (fold (record_move H h) ms sv) = to_hash H ` set (queue sv @ new)
           \<and> distinct (map (to_hash H) (queue sv @ new))
           \<and> (\<forall>m\<in>set ms. to_hash H (fst m) \<in> fst ` set (visited_states sv) \<union> to_hash H ` set (queue sv @ new))"
  using assms
proof (induction ms arbitrary: sv)
  case Nil
  then show ?case by simp
next
  case (Cons m ms)
  let ?sv = "record_move H h m sv"
  have a: "queued_states ?sv = to_hash H ` set (queue ?sv)" "distinct (map (to_hash H) (queue ?sv))"
    using Cons.prems by (auto simp: record_move_fields)
  from Cons.IH[OF a] obtain new where n:
    "queue (fold (record_move H h) ms ?sv) = queue ?sv @ new"
    "set new \<subseteq> fst ` set ms"
    "\<forall>s\<in>set new. to_hash H s \<notin> fst ` set (visited_states sv)"
    "queued_states (fold (record_move H h) ms ?sv) = to_hash H ` set (queue ?sv @ new)"
    "distinct (map (to_hash H) (queue ?sv @ new))"
    "\<forall>m\<in>set ms. to_hash H (fst m) \<in> fst ` set (visited_states sv) \<union> to_hash H ` set (queue ?sv @ new)"
    by (auto simp: record_move_fields)
  show ?case
  proof (cases "to_hash H (fst m) \<notin> fst ` set (visited_states sv) \<and> to_hash H (fst m) \<notin> queued_states sv")
    case True
    hence q: "queue ?sv = queue sv @ [fst m]" by (simp add: record_move_fields)
    show ?thesis
      apply (rule exI[of _ "fst m # new"])
      using n True unfolding q by auto
  next
    case False
    hence q: "queue ?sv = queue sv" by (simp add: record_move_fields)
    show ?thesis
      apply (rule exI[of _ "new"])
      using n False Cons.prems(1) unfolding q by auto
  qed
qed

lemma update_fresh: "k \<notin> fst ` set al \<Longrightarrow> AList.update k v al = al @ [(k, v)]"
  by (induction al) auto


lemma count_at_mono:
  "length (filter (\<lambda>p. (p_x p, p_y p) = (nx, ny)) ps)
   \<le> length (filter (\<lambda>p. (p_x p, p_y p) = (nx, ny)) (map (\<lambda>p. if p_id p = i
                         then \<lparr>p_id = p_id p, p_x = nx, p_y = ny,
                               p_width = p_width p, p_height = p_height p\<rparr>
                         else \<lparr>p_id = p_id p, p_x = p_x p, p_y = p_y p,
                               p_width = p_width p, p_height = p_height p\<rparr>) ps))"
  by (induction ps) auto

lemma count_at_strict:
  assumes "piece \<in> set ps" "p_id piece = i" "(p_x piece, p_y piece) \<noteq> (nx, ny)"
  shows "length (filter (\<lambda>p. (p_x p, p_y p) = (nx, ny)) ps)
   < length (filter (\<lambda>p. (p_x p, p_y p) = (nx, ny)) (map (\<lambda>p. if p_id p = i
                         then \<lparr>p_id = p_id p, p_x = nx, p_y = ny,
                               p_width = p_width p, p_height = p_height p\<rparr>
                         else \<lparr>p_id = p_id p, p_x = p_x p, p_y = p_y p,
                               p_width = p_width p, p_height = p_height p\<rparr>) ps))"
  using assms
proof (induction ps)
  case Nil
  then show ?case by simp
next
  case (Cons a ps)
  note m = count_at_mono[of nx ny ps i]
  show ?case
  proof (cases "a = piece")
    case True
    with Cons.prems m show ?thesis by auto
  next
    case False
    with Cons.prems have "piece \<in> set ps" by simp
    from Cons.IH[OF this Cons.prems(2,3)] show ?thesis by auto
  qed
qed

lemma count_at_geom:
  "length (filter (\<lambda>p. (p_x p, p_y p) = c) ps)
   = size (filter_mset (\<lambda>g. (fst g, fst (snd g)) = c) (mset (map geom ps)))"
  by (induction ps) (auto simp: geom_def)

lemma mset_to_tuple: "mset (to_tuple s) = mset (map geom (pieces s))"
  by (simp add: to_tuple_def)

lemma move_changes_tuple:
  assumes "(s', i, d) \<in> set (get_possible_moves s)"
  shows "to_tuple s' \<noteq> to_tuple s"
proof
  assume eq: "to_tuple s' = to_tuple s"
  from assms obtain piece dx dy dir where p: "piece \<in> set (pieces s)"
    and dd: "(dx, dy, dir) \<in> set directions"
    and s': "s' = move_pieces s (p_id piece) (p_x piece + dx) (p_y piece + dy)"
    by (auto simp: in_moves_iff)
  from dd have ne: "(p_x piece, p_y piece) \<noteq> (p_x piece + dx, p_y piece + dy)"
    by (auto simp: directions_def)
  let ?c = "(p_x piece + dx, p_y piece + dy)"
  have "length (filter (\<lambda>p. (p_x p, p_y p) = ?c) (pieces s))
      < length (filter (\<lambda>p. (p_x p, p_y p) = ?c) (pieces s'))"
    unfolding s' move_pieces_def using count_at_strict[OF p refl ne] by simp
  hence lt: "size (filter_mset (\<lambda>g. (fst g, fst (snd g)) = ?c) (mset (map geom (pieces s))))
      < size (filter_mset (\<lambda>g. (fst g, fst (snd g)) = ?c) (mset (map geom (pieces s'))))"
    unfolding count_at_geom .
  from eq have "mset (map geom (pieces s')) = mset (map geom (pieces s))"
    by (metis mset_to_tuple)
  with lt show False by (simp only: less_irrefl)
qed

lemma move_changes_hash:
  assumes "inj H" "(s', i, d) \<in> set (get_possible_moves s)"
  shows "to_hash H s' \<noteq> to_hash H s"
  using move_changes_tuple[OF assms(2)] assms(1) by (auto simp: to_hash_def inj_def)


lemma explorer_invD:
  assumes "explorer_inv H init sv"
  shows "initial_state sv = init"
    and "queued_states sv = to_hash H ` set (queue sv)"
    and "distinct (map (to_hash H) (queue sv))"
    and "\<forall>(h, s)\<in>set (visited_states sv). h = to_hash H s"
    and "distinct (map fst (visited_states sv))"
    and "fst ` set (visited_states sv) \<inter> queued_states sv = {}"
    and "edges sv = concat (map (\<lambda>(h, s). map (edge_of H h) (get_possible_moves s)) (visited_states sv))"
    and "\<forall>(h, s)\<in>set (visited_states sv). \<forall>m\<in>set (get_possible_moves s).
            to_hash H (fst m) \<in> fst ` set (visited_states sv) \<union> queued_states sv"
    and "set (queue sv) \<union> snd ` set (visited_states sv) \<subseteq> reachable init"
    and "if visited_states sv = [] then queue sv = [init]
         else hd (visited_states sv) = (to_hash H init, init)"
  using assms unfolding explorer_inv_def by - (elim conjE, assumption)+

lemma explorer_invI:
  assumes "initial_state sv = init"
    and "queued_states sv = to_hash H ` set (queue sv)"
    and "distinct (map (to_hash H) (queue sv))"
    and "\<forall>(h, s)\<in>set (visited_states sv). h = to_hash H s"
    and "distinct (map fst (visited_states sv))"
    and "fst ` set (visited_states sv) \<inter> queued_states sv = {}"
    and "edges sv = concat (map (\<lambda>(h, s). map (edge_of H h) (get_possible_moves s)) (visited_states sv))"
    and "\<forall>(h, s)\<in>set (visited_states sv). \<forall>m\<in>set (get_possible_moves s).
            to_hash H (fst m) \<in> fst ` set (visited_states sv) \<union> queued_states sv"
    and "set (queue sv) \<union> snd ` set (visited_states sv) \<subseteq> reachable init"
    and "if visited_states sv = [] then queue sv = [init]
         else hd (visited_states sv) = (to_hash H init, init)"
  shows "explorer_inv H init sv"
  unfolding explorer_inv_def using assms by (intro conjI)

lemma loop_body_inv:
  assumes inj: "inj H" and inv: "explorer_inv H init sv" and ne: "queue sv \<noteq> []"
  shows "\<exists>sv'. loop_body H sv = Inr sv' \<and> explorer_inv H init sv'"
proof -
  from ne obtain c rest where q: "queue sv = c # rest" by (cases "queue sv") auto
  let ?h = "to_hash H c"
  let ?V = "visited_states sv"
  let ?K = "fst ` set ?V"
  let ?sv1 = "sv\<lparr>queue := rest, queued_states := queued_states sv - {?h}\<rparr>"
  let ?ms = "get_possible_moves c"
  let ?sv2 = "fold (record_move H ?h) ?ms ?sv1"
  let ?sv3 = "?sv2\<lparr>visited_states := AList.update ?h c (visited_states ?sv2)\<rparr>"
  note i0 = explorer_invD(1)[OF inv] and iA = explorer_invD(2)[OF inv]
    and iA2 = explorer_invD(3)[OF inv] and iB = explorer_invD(4)[OF inv]
    and iC = explorer_invD(5)[OF inv] and iD = explorer_invD(6)[OF inv]
    and iE = explorer_invD(7)[OF inv] and iF = explorer_invD(8)[OF inv]
    and iG = explorer_invD(9)[OF inv] and iI = explorer_invD(10)[OF inv]
  have hq: "?h \<in> queued_states sv" using iA q by simp
  hence hK: "?h \<notin> ?K" using iD by auto
  have body: "loop_body H sv = Inr ?sv3"
    using hq by (simp add: loop_body_def q Let_def)
  have a1: "queued_states ?sv1 = to_hash H ` set (queue ?sv1)"
    using iA iA2 q by auto
  have a2: "distinct (map (to_hash H) (queue ?sv1))" using iA2 q by simp
  from fold_record_move_queue[OF a1 a2, of ?h ?ms] obtain new where n:
    "queue ?sv2 = rest @ new"
    "set new \<subseteq> fst ` set ?ms"
    "\<forall>s\<in>set new. to_hash H s \<notin> ?K"
    "queued_states ?sv2 = to_hash H ` set (rest @ new)"
    "distinct (map (to_hash H) (rest @ new))"
    "\<forall>m\<in>set ?ms. to_hash H (fst m) \<in> ?K \<union> to_hash H ` set (rest @ new)"
    by auto
  have v2: "visited_states ?sv2 = ?V" by (simp add: fold_record_move_const)
  have v3: "visited_states ?sv3 = ?V @ [(?h, c)]"
    by (simp add: v2 update_fresh[OF hK])
  have q3: "queue ?sv3 = rest @ new" using n(1) by simp
  have qs3: "queued_states ?sv3 = to_hash H ` set (rest @ new)" using n(4) by simp
  have e3: "edges ?sv3 = edges sv @ map (edge_of H ?h) ?ms"
    by (simp add: fold_record_move_edges)
  have creach: "c \<in> reachable init" using iG q by auto
  have newsucc: "\<And>s. s \<in> set new \<Longrightarrow> \<exists>i d. (s, i, d) \<in> set ?ms"
    using n(2) by force
  have new_ne: "\<And>s. s \<in> set new \<Longrightarrow> to_hash H s \<noteq> ?h"
    using newsucc move_changes_hash[OF inj] by blast
  have rest_ne: "?h \<notin> to_hash H ` set rest" using iA2 q by auto
  have restK: "to_hash H ` set rest \<inter> ?K = {}" using iD iA q by auto
  have c1: "initial_state ?sv3 = init" by (simp add: fold_record_move_const i0)
  have c4: "\<forall>(h, s)\<in>set (visited_states ?sv3). h = to_hash H s"
    unfolding v3 using iB by auto
  have c5: "distinct (map fst (visited_states ?sv3))"
    unfolding v3 using iC hK by (auto simp: image_iff)
  have c6: "fst ` set (visited_states ?sv3) \<inter> queued_states ?sv3 = {}"
  proof -
    have "?K \<inter> to_hash H ` set rest = {}" using restK by blast
    moreover have "?K \<inter> to_hash H ` set new = {}"
    proof (rule ccontr)
      assume "?K \<inter> to_hash H ` set new \<noteq> {}"
      then obtain y where yK: "y \<in> ?K" and yn: "y \<in> to_hash H ` set new" by blast
      from yn obtain t where t: "t \<in> set new" "y = to_hash H t" by (rule imageE)
      from n(3) t(1) have "to_hash H t \<notin> ?K" by (rule bspec)
      with yK t(2) show False by simp
    qed
    moreover have "?h \<notin> to_hash H ` set new"
    proof
      assume "?h \<in> to_hash H ` set new"
      then obtain t where t: "t \<in> set new" "?h = to_hash H t" by (rule imageE)
      from new_ne[OF t(1)] t(2) show False by simp
    qed
    ultimately show ?thesis unfolding v3 qs3 using rest_ne
      by (simp add: image_Un Int_Un_distrib Int_Un_distrib2)
  qed
  have c7: "edges ?sv3 = concat (map (\<lambda>(h, s). map (edge_of H h) (get_possible_moves s)) (visited_states ?sv3))"
    unfolding v3 e3 iE by simp
  have c8: "\<forall>(h, s)\<in>set (visited_states ?sv3). \<forall>m\<in>set (get_possible_moves s).
            to_hash H (fst m) \<in> fst ` set (visited_states ?sv3) \<union> queued_states ?sv3"
  proof (clarify)
    fix h s m
    assume hs: "(h, s) \<in> set (visited_states ?sv3)" and m: "m \<in> set (get_possible_moves s)"
      and nq: "to_hash H (fst m) \<notin> queued_states ?sv3"
    show "to_hash H (fst m) \<in> fst ` set (visited_states ?sv3)"
    proof (cases "(h, s) = (?h, c)")
      case True
      with m n(6) nq qs3 have "to_hash H (fst m) \<in> ?K" by auto
      thus ?thesis unfolding v3 by simp
    next
      case False
      with hs have "(h, s) \<in> set ?V" unfolding v3 by auto
      with iF m have "to_hash H (fst m) \<in> ?K \<union> queued_states sv" by blast
      moreover have "queued_states sv = insert ?h (to_hash H ` set rest)"
        using iA q by simp
      moreover have "queued_states ?sv3 = to_hash H ` set rest \<union> to_hash H ` set new"
        using qs3 by (simp add: image_Un)
      ultimately have "to_hash H (fst m) \<in> ?K \<union> insert ?h (queued_states ?sv3)"
        by blast
      hence "to_hash H (fst m) \<in> ?K \<union> {?h}" using nq by blast
      moreover have "fst ` set (visited_states ?sv3) = ?K \<union> {?h}" unfolding v3 by simp
      ultimately show ?thesis by blast
    qed
  qed
  have c9: "set (queue ?sv3) \<union> snd ` set (visited_states ?sv3) \<subseteq> reachable init"
  proof -
    have "set new \<subseteq> reachable init"
      using newsucc creach by (blast intro: reachable.step)
    thus ?thesis unfolding q3 v3 using iG q by auto
  qed
  have c10: "if visited_states ?sv3 = [] then queue ?sv3 = [init]
         else hd (visited_states ?sv3) = (to_hash H init, init)"
    unfolding v3 using iI q by (cases ?V) auto
  have c2: "queued_states ?sv3 = to_hash H ` set (queue ?sv3)" using qs3 q3 by simp
  have c3: "distinct (map (to_hash H) (queue ?sv3))" using n(5) q3 by simp
  have "explorer_inv H init ?sv3"
    by (rule explorer_invI[OF c1 c2 c3 c4 c5 c6 c7 c8 c9 c10])
  with body show ?thesis by blast
qed


lemma positions_gcells: "get_positions p = gcells (geom p)"
  by (simp add: get_positions_eq gcells_def geom_def)

lemma pieces_distinct: "ids_unique s \<Longrightarrow> distinct (pieces s)"
  by (auto simp: ids_unique_def distinct_map)

lemma others_geom:
  assumes "ids_unique s" "piece \<in> set (pieces s)"
  shows "mset (map geom (pieces s)) - {#geom piece#} = mset (map geom (remove1 piece (pieces s)))"
  using assms(2) by (simp add: image_mset_Diff)

lemma valid_iff_geom:
  assumes u: "ids_unique s" and dis: "pieces_disjoint s" and p: "piece \<in> set (pieces s)"
  shows "is_valid_position s (p_id piece) nx ny w h \<longleftrightarrow>
     0 \<le> nx \<and> 0 \<le> ny \<and> nx + w \<le> board_width s \<and> ny + h \<le> board_height s \<and>
     (\<forall>g'\<in>#mset (map geom (pieces s)) - {#geom piece#}. gcells (nx, ny, w, h) \<inter> gcells g' = {})"
proof -
  have d: "distinct (pieces s)" by (rule pieces_distinct[OF u])
  have same: "\<And>q. q \<in> set (pieces s) \<Longrightarrow> p_id q = p_id piece \<Longrightarrow> q = piece"
    using u p by (auto simp: ids_unique_def distinct_map inj_on_def)
  have oth: "(\<forall>g'\<in>#mset (map geom (pieces s)) - {#geom piece#}. gcells (nx, ny, w, h) \<inter> gcells g' = {})
      \<longleftrightarrow> (\<forall>q\<in>set (pieces s). q \<noteq> piece \<longrightarrow> gcells (nx, ny, w, h) \<inter> get_positions q = {})"
  proof -
    have "set_mset (mset (map geom (pieces s)) - {#geom piece#}) = geom ` (set (pieces s) - {piece})"
      unfolding others_geom[OF u p] by (simp only: set_mset_mset set_map set_remove1_eq[OF d])
    thus ?thesis by (auto simp: positions_gcells)
  qed
  have "(\<forall>dx dy. 0 \<le> dx \<and> dx < w \<and> 0 \<le> dy \<and> dy < h \<longrightarrow>
        get_occupied_positions s (nx + dx, ny + dy) = None \<or>
        get_occupied_positions s (nx + dx, ny + dy) = Some (p_id piece))
     \<longleftrightarrow> (\<forall>q\<in>set (pieces s). q \<noteq> piece \<longrightarrow> gcells (nx, ny, w, h) \<inter> get_positions q = {})"
    (is "?L \<longleftrightarrow> ?R")
  proof
    assume L: ?L
    show ?R
    proof (intro ballI impI)
      fix q assume q: "q \<in> set (pieces s)" "q \<noteq> piece"
      with same have ne: "p_id q \<noteq> p_id piece" by blast
      have "is_valid_position s (p_id piece) nx ny w h \<or> True" by simp
      show "gcells (nx, ny, w, h) \<inter> get_positions q = {}"
      proof (rule ccontr)
        assume "gcells (nx, ny, w, h) \<inter> get_positions q \<noteq> {}"
        then obtain dx dy where c: "0 \<le> dx" "dx < w" "0 \<le> dy" "dy < h" "(nx + dx, ny + dy) \<in> get_positions q"
          by (auto simp: gcells_def)
        from L c(1-4) have "get_occupied_positions s (nx + dx, ny + dy) = None \<or>
            get_occupied_positions s (nx + dx, ny + dy) = Some (p_id piece)" by blast
        with occupied_owner[OF dis q(1) c(5)] ne show False by simp
      qed
    qed
  next
    assume R: ?R
    show ?L
    proof (intro allI impI)
      fix dx dy assume c: "0 \<le> dx \<and> dx < w \<and> 0 \<le> dy \<and> dy < h"
      hence cell: "(nx + dx, ny + dy) \<in> gcells (nx, ny, w, h)" by (auto simp: gcells_def)
      show "get_occupied_positions s (nx + dx, ny + dy) = None \<or>
        get_occupied_positions s (nx + dx, ny + dy) = Some (p_id piece)"
      proof (cases "get_occupied_positions s (nx + dx, ny + dy)")
        case None thus ?thesis by simp
      next
        case (Some j)
        from occupied_Some[OF Some] obtain q where q: "q \<in> set (pieces s)"
          "(nx + dx, ny + dy) \<in> get_positions q" "p_id q = j" by auto
        with R cell have "q = piece" by blast
        with q Some show ?thesis by simp
      qed
    qed
  qed
  thus ?thesis unfolding is_valid_position_iff oth by simp
qed

lemma moved_geom:
  assumes u: "ids_unique s" and p: "piece \<in> set (pieces s)"
  shows "mset (map geom (pieces (move_pieces s (p_id piece) nx ny)))
       = mset (map geom (pieces s)) - {#geom piece#} + {#(nx, ny, p_width piece, p_height piece)#}"
proof -
  from p obtain xs ys where split: "pieces s = xs @ piece # ys" by (auto simp: in_set_conv_decomp)
  with u have nx: "\<forall>q\<in>set xs. p_id q \<noteq> p_id piece" and ny: "\<forall>q\<in>set ys. p_id q \<noteq> p_id piece"
    by (auto simp: ids_unique_def image_iff)
  let ?f = "\<lambda>p. if p_id p = p_id piece
                         then \<lparr>p_id = p_id p, p_x = nx, p_y = ny,
                               p_width = p_width p, p_height = p_height p\<rparr>
                         else \<lparr>p_id = p_id p, p_x = p_x p, p_y = p_y p,
                               p_width = p_width p, p_height = p_height p\<rparr>"
  have "map ?f xs = xs" using nx by (induction xs) (auto simp: rebuild_same)
  moreover have "map ?f ys = ys" using ny by (induction ys) (auto simp: rebuild_same)
  ultimately have "map ?f (pieces s) = xs @ ?f piece # ys" unfolding split by simp
  thus ?thesis unfolding move_pieces_def by (simp add: split geom_def)
qed


lemma to_tuple_cong:
  assumes "mset (map geom (pieces s)) = mset (map geom (pieces t))"
  shows "to_tuple s = to_tuple t"
  unfolding to_tuple_def using assms by (intro properties_for_sort) simp_all

lemma successor_congruent:
  assumes us: "ids_unique s" and ds: "pieces_disjoint s"
    and ut: "ids_unique t" and dt: "pieces_disjoint t"
    and bw: "board_width s = board_width t" and bh: "board_height s = board_height t"
    and tt: "to_tuple s = to_tuple t"
    and m: "(s', i, d) \<in> set (get_possible_moves s)"
  shows "\<exists>t' j. (t', j, d) \<in> set (get_possible_moves t) \<and> to_tuple t' = to_tuple s'"
proof -
  from m obtain piece dx dy where p: "piece \<in> set (pieces s)"
    and dd: "(dx, dy, d) \<in> set directions"
    and v: "is_valid_position s (p_id piece) (p_x piece + dx) (p_y piece + dy) (p_width piece) (p_height piece)"
    and s': "s' = move_pieces s (p_id piece) (p_x piece + dx) (p_y piece + dy)"
    by (auto simp: in_moves_iff)
  from tt have G: "mset (map geom (pieces s)) = mset (map geom (pieces t))"
    by (metis mset_to_tuple)
  from p have "geom piece \<in># mset (map geom (pieces s))" by simp
  hence "geom piece \<in> set (map geom (pieces t))" unfolding G by simp
  then obtain q where q: "q \<in> set (pieces t)" and gq: "geom q = geom piece" by auto
  from gq have f: "p_x q = p_x piece" "p_y q = p_y piece" "p_width q = p_width piece" "p_height q = p_height piece"
    by (simp_all add: geom_def)
  from v have "is_valid_position t (p_id q) (p_x q + dx) (p_y q + dy) (p_width q) (p_height q)"
    unfolding valid_iff_geom[OF us ds p] valid_iff_geom[OF ut dt q] f bw bh G gq .
  with q dd have mt: "(move_pieces t (p_id q) (p_x q + dx) (p_y q + dy), p_id q, d) \<in> set (get_possible_moves t)"
    unfolding in_moves_iff by blast
  have "mset (map geom (pieces (move_pieces t (p_id q) (p_x q + dx) (p_y q + dy))))
      = mset (map geom (pieces s'))"
    unfolding s' moved_geom[OF us p] moved_geom[OF ut q] f G gq ..
  from to_tuple_cong[OF this] mt show ?thesis by blast
qed

lemma reachable_invariant:
  assumes "ids_unique init" "state_invariant init" "s \<in> reachable init"
  shows "ids_unique s \<and> state_invariant s \<and> board_width s = board_width init
         \<and> board_height s = board_height init"
  using assms(3)
proof (induction rule: reachable.induct)
  case start
  with assms show ?case by simp
next
  case (step s s' i d)
  from step.hyps(2) have "board_width s' = board_width s" "board_height s' = board_height s"
    by (auto simp: in_moves_iff move_pieces_def)
  with move_keeps_invariant[OF _ _ step.hyps(2)] step.IH show ?case by simp
qed


lemma explore_total_correct:
  assumes run: "explore H sv = Some r"
    and step: "\<And>sv. I sv \<Longrightarrow> queue sv \<noteq> [] \<Longrightarrow> \<exists>sv'. loop_body H sv = Inr sv' \<and> I sv'"
    and init: "I sv"
  shows "\<exists>sv'. r = Inr sv' \<and> I sv' \<and> queue sv' = []"
proof -
  let ?Q = "\<lambda>r. \<exists>sv'. r = Inr sv' \<and> I sv' \<and> queue sv' = []"
  have "H = H \<longrightarrow> I sv \<longrightarrow> ?Q r"
  proof (rule explore.raw_induct[where P = "\<lambda>H' sv r. H' = H \<longrightarrow> I sv \<longrightarrow> ?Q r", OF _ run])
    fix f H' sv r
    assume IH: "\<And>H' sv r. f H' sv = Some r \<Longrightarrow> H' = H \<longrightarrow> I sv \<longrightarrow> ?Q r"
      and eq: "(if queue sv = [] then Some (Inr sv)
           else case loop_body H' sv of Inl e \<Rightarrow> Some (Inl e) | Inr sv' \<Rightarrow> f H' sv') = Some r"
    show "H' = H \<longrightarrow> I sv \<longrightarrow> ?Q r"
    proof (intro impI)
      assume H': "H' = H" and I: "I sv"
      show "?Q r"
      proof (cases "queue sv = []")
        case True with eq I show ?thesis by auto
      next
        case False
        from step[OF I False] obtain sv1 where b: "loop_body H sv = Inr sv1" and I1: "I sv1" by blast
        with False eq H' have "f H sv1 = Some r" by simp
        from IH[OF this] I1 show ?thesis by simp
      qed
    qed
  qed
  with init show ?thesis by simp
qed

lemma start_inv:
  "explorer_inv H init \<lparr>initial_state = init, visited_states = [], edges = [],
      queue = [init], queued_states = {to_hash H init}\<rparr>"
  by (simp add: explorer_inv_def reachable.start)

lemma compute_state_space_inv:
  assumes inj: "inj H" and run: "compute_state_space H (KlotskiSolver init) = Some r"
  shows "\<exists>sv'. r = Inr (sv', create_graph_json sv') \<and> explorer_inv H init sv' \<and> queue sv' = []"
proof -
  from run obtain r0 where r0: "explore H \<lparr>initial_state = init, visited_states = [], edges = [],
      queue = [init], queued_states = {to_hash H init}\<rparr> = Some r0"
    by (auto simp: compute_state_space_def KlotskiSolver_def split: option.splits)
  from explore_total_correct[where I = "explorer_inv H init", OF r0 loop_body_inv[OF inj] start_inv]
  obtain sv' where "r0 = Inr sv'" "explorer_inv H init sv'" "queue sv' = []" by blast
  with run r0 show ?thesis by (auto simp: compute_state_space_def KlotskiSolver_def)
qed

lemma final_keys:
  assumes inv: "explorer_inv H init sv" and q: "queue sv = []"
  shows "to_hash H init \<in> fst ` set (visited_states sv)"
    and "\<And>h s m. (h, s) \<in> set (visited_states sv) \<Longrightarrow> m \<in> set (get_possible_moves s) \<Longrightarrow>
           to_hash H (fst m) \<in> fst ` set (visited_states sv)"
proof -
  from inv q have ne: "visited_states sv \<noteq> []" and hd: "hd (visited_states sv) = (to_hash H init, init)"
    by (auto simp: explorer_inv_def split: if_splits)
  hence "(to_hash H init, init) \<in> set (visited_states sv)" by (metis hd_in_set)
  thus "to_hash H init \<in> fst ` set (visited_states sv)" by force
next
  fix h s m assume a: "(h, s) \<in> set (visited_states sv)" "m \<in> set (get_possible_moves s)"
  from inv q have qs: "queued_states sv = {}" by (simp add: explorer_inv_def)
  from inv have "\<forall>(h, s)\<in>set (visited_states sv). \<forall>m\<in>set (get_possible_moves s).
            to_hash H (fst m) \<in> fst ` set (visited_states sv) \<union> queued_states sv"
    unfolding explorer_inv_def by blast
  with a qs show "to_hash H (fst m) \<in> fst ` set (visited_states sv)" by fastforce
qed

lemma reachable_visited:
  assumes inj: "inj H" and u: "ids_unique init" and si: "state_invariant init"
    and inv: "explorer_inv H init sv" and q: "queue sv = []"
    and r: "s \<in> reachable init"
  shows "to_hash H s \<in> fst ` set (visited_states sv)"
  using r
proof (induction rule: reachable.induct)
  case start
  show ?case by (rule final_keys(1)[OF inv q])
next
  case (step s s' i d)
  from step.IH obtain t where t: "(to_hash H s, t) \<in> set (visited_states sv)" by force
  from inv have B: "\<forall>(h, s)\<in>set (visited_states sv). h = to_hash H s"
    and G: "set (queue sv) \<union> snd ` set (visited_states sv) \<subseteq> reachable init"
    unfolding explorer_inv_def by blast+
  from B t have "to_hash H s = to_hash H t" by blast
  with inj have tt: "to_tuple s = to_tuple t" by (simp add: to_hash_def inj_def)
  from G t have tr: "t \<in> reachable init" by force
  note ivs = reachable_invariant[OF u si step.hyps(1)]
  note ivt = reachable_invariant[OF u si tr]
  from ivs ivt have b: "board_width s = board_width t" "board_height s = board_height t" by simp_all
  from successor_congruent[OF _ _ _ _ b tt step.hyps(2)] ivs ivt
  obtain t' j where m: "(t', j, d) \<in> set (get_possible_moves t)" and e: "to_tuple t' = to_tuple s'"
    by (auto simp: state_invariant_def)
  from final_keys(2)[OF inv q t m] have "to_hash H t' \<in> fst ` set (visited_states sv)" by simp
  with e show ?case by (simp add: to_hash_def)
qed


section \<open>The claims about the exploration\<close>

lemma graph_of_solver:
  "map n_id (g_nodes (create_graph_json sv)) = map fst (visited_states sv)"
  "g_edges (create_graph_json sv) = edges sv"
  "n_id ` set (g_nodes (create_graph_json sv)) = fst ` set (visited_states sv)"
  "length (g_nodes (create_graph_json sv)) = length (visited_states sv)"
  by (simp_all add: create_graph_json_def Let_def image_image case_prod_unfold comp_def)

lemma edge_of_simps:
  "e_source (edge_of H h m) = h"
  "e_target (edge_of H h m) = to_hash H (fst m)"
  "e_piece_id (edge_of H h m) = fst (snd m)"
  "e_direction (edge_of H h m) = snd (snd m)"
  by (simp_all add: edge_of_def split: prod.splits)

lemma edges_closed:
  assumes inv: "explorer_inv H init sv" and q: "queue sv = []" and e: "e \<in> set (edges sv)"
  shows "e_source e \<in> fst ` set (visited_states sv) \<and> e_target e \<in> fst ` set (visited_states sv)"
proof -
  from e explorer_invD(7)[OF inv] obtain h s m where hs: "(h, s) \<in> set (visited_states sv)"
    and m: "m \<in> set (get_possible_moves s)" and ee: "e = edge_of H h m"
    by auto
  from final_keys(2)[OF inv q hs m] have "to_hash H (fst m) \<in> fst ` set (visited_states sv)" .
  moreover from hs have "h \<in> fst ` set (visited_states sv)" by force
  ultimately show ?thesis unfolding ee by (simp add: edge_of_simps)
qed

text \<open>
  C1: with a collision-free digest and an initial state of the data model (one piece
  per id, state invariant), a run of \<^verbatim>\<open>compute_state_space\<close> that ends returns a
  graph and no error; every state reachable by legal moves has its fingerprint at exactly
  one index of the node list, the node fingerprints are pairwise different and are the
  keys of the visited table in order, every entry of the table is a reachable state under
  its own fingerprint, the edge list is the concatenation over the table of the moves of
  each entry (each state is expanded once), and every edge starts and ends at a node.
\<close>

theorem explorer_complete_no_duplicates:
  assumes inj: "inj H" and u: "ids_unique init" and si: "state_invariant init"
    and run: "compute_state_space H (KlotskiSolver init) = Some r"
  shows "\<exists>sv' g. r = Inr (sv', g)
     \<and> (\<forall>s\<in>reachable init. \<exists>!k. k < length (g_nodes g) \<and> n_id (g_nodes g ! k) = to_hash H s)
     \<and> distinct (map n_id (g_nodes g))
     \<and> map n_id (g_nodes g) = map fst (visited_states sv')
     \<and> (\<forall>(h, s)\<in>set (visited_states sv'). h = to_hash H s \<and> s \<in> reachable init)
     \<and> g_edges g = concat (map (\<lambda>(h, s). map (edge_of H h) (get_possible_moves s)) (visited_states sv'))
     \<and> (\<forall>e\<in>set (g_edges g). e_source e \<in> n_id ` set (g_nodes g) \<and> e_target e \<in> n_id ` set (g_nodes g))"
proof -
  from compute_state_space_inv[OF inj run] obtain sv' where r: "r = Inr (sv', create_graph_json sv')"
    and inv: "explorer_inv H init sv'" and q: "queue sv' = []" by blast
  let ?g = "create_graph_json sv'"
  note g = graph_of_solver[of sv']
  have d: "distinct (map n_id (g_nodes ?g))" unfolding g(1) by (rule explorer_invD(5)[OF inv])
  have a: "\<exists>!k. k < length (g_nodes ?g) \<and> n_id (g_nodes ?g ! k) = to_hash H s" if s: "s \<in> reachable init" for s
  proof -
    from reachable_visited[OF inj u si inv q s] have "to_hash H s \<in> set (map n_id (g_nodes ?g))"
      unfolding g(1) by simp
    then obtain k where k: "k < length (g_nodes ?g)" "n_id (g_nodes ?g ! k) = to_hash H s"
      by (auto simp: in_set_conv_nth)
    show ?thesis
    proof (rule ex1I[of _ k])
      show "k < length (g_nodes ?g) \<and> n_id (g_nodes ?g ! k) = to_hash H s" using k by simp
    next
      fix j assume j: "j < length (g_nodes ?g) \<and> n_id (g_nodes ?g ! j) = to_hash H s"
      with k d show "j = k" by (auto simp: distinct_conv_nth) (metis length_map nth_map)
    qed
  qed
  have b: "\<forall>(h, s)\<in>set (visited_states sv'). h = to_hash H s \<and> s \<in> reachable init"
    using explorer_invD(4)[OF inv] explorer_invD(9)[OF inv] by force
  have c: "\<forall>e\<in>set (g_edges ?g). e_source e \<in> n_id ` set (g_nodes ?g) \<and> e_target e \<in> n_id ` set (g_nodes ?g)"
    unfolding g(2) g(3) using edges_closed[OF inv q] by blast
  have e: "g_edges ?g = concat (map (\<lambda>(h, s). map (edge_of H h) (get_possible_moves s)) (visited_states sv'))"
    unfolding g(2) by (rule explorer_invD(7)[OF inv])
  have a': "\<forall>s\<in>reachable init. \<exists>!k. k < length (g_nodes ?g) \<and> n_id (g_nodes ?g ! k) = to_hash H s"
    using a by blast
  show ?thesis
    by (intro exI[of _ sv'] exI[of _ ?g] conjI r a' d g(1) b e c)
qed


lemma simple_run_evaluates:
  "(case compute_state_space (\<lambda>t. t) (KlotskiSolver create_simple_klotski) of
      Some (Inr _) \<Rightarrow> True | _ \<Rightarrow> False)"
  by code_simp

lemma simple_run_returns:
  "\<exists>r. compute_state_space (\<lambda>t. t) (KlotskiSolver create_simple_klotski) = Some r"
  using simple_run_evaluates by (auto split: option.splits)

theorem explorer_complete_no_duplicates_witness:
  "inj (\<lambda>t::geometry list. t) \<and> ids_unique create_simple_klotski
   \<and> state_invariant create_simple_klotski
   \<and> (\<exists>sv' g. compute_state_space (\<lambda>t. t) (KlotskiSolver create_simple_klotski) = Some (Inr (sv', g))
        \<and> (\<exists>!k. k < length (g_nodes g)
                \<and> n_id (g_nodes g ! k) = to_hash (\<lambda>t. t) create_simple_klotski)
        \<and> distinct (map n_id (g_nodes g))
        \<and> g_edges g = concat (map (\<lambda>(h, s). map (edge_of (\<lambda>t. t) h) (get_possible_moves s))
                                   (visited_states sv')))"
proof -
  have a: "inj (\<lambda>t::geometry list. t)" by simp
  have b: "ids_unique create_simple_klotski" by code_simp
  have c: "state_invariant create_simple_klotski" by code_simp
  from simple_run_returns obtain r where
    r: "compute_state_space (\<lambda>t. t) (KlotskiSolver create_simple_klotski) = Some r" by blast
  from explorer_complete_no_duplicates [OF a b c r]
  obtain sv' where "\<exists>g. r = Inr (sv', g)
     \<and> (\<forall>s\<in>reachable create_simple_klotski.
           \<exists>!k. k < length (g_nodes g) \<and> n_id (g_nodes g ! k) = to_hash (\<lambda>t. t) s)
     \<and> distinct (map n_id (g_nodes g))
     \<and> map n_id (g_nodes g) = map fst (visited_states sv')
     \<and> (\<forall>(h, s)\<in>set (visited_states sv'). h = to_hash (\<lambda>t. t) s \<and> s \<in> reachable create_simple_klotski)
     \<and> g_edges g = concat (map (\<lambda>(h, s). map (edge_of (\<lambda>t. t) h) (get_possible_moves s)) (visited_states sv'))
     \<and> (\<forall>e\<in>set (g_edges g). e_source e \<in> n_id ` set (g_nodes g) \<and> e_target e \<in> n_id ` set (g_nodes g))"
    by (rule exE)
  then obtain g where f: "r = Inr (sv', g)
     \<and> (\<forall>s\<in>reachable create_simple_klotski.
           \<exists>!k. k < length (g_nodes g) \<and> n_id (g_nodes g ! k) = to_hash (\<lambda>t. t) s)
     \<and> distinct (map n_id (g_nodes g))
     \<and> map n_id (g_nodes g) = map fst (visited_states sv')
     \<and> (\<forall>(h, s)\<in>set (visited_states sv'). h = to_hash (\<lambda>t. t) s \<and> s \<in> reachable create_simple_klotski)
     \<and> g_edges g = concat (map (\<lambda>(h, s). map (edge_of (\<lambda>t. t) h) (get_possible_moves s)) (visited_states sv'))
     \<and> (\<forall>e\<in>set (g_edges g). e_source e \<in> n_id ` set (g_nodes g) \<and> e_target e \<in> n_id ` set (g_nodes g))"
    by (rule exE)
  from f have f1: "r = Inr (sv', g)" by (rule conjunct1)
  from f[THEN conjunct2, THEN conjunct1] reachable.start[of create_simple_klotski]
  have f2: "\<exists>!k. k < length (g_nodes g) \<and> n_id (g_nodes g ! k) = to_hash (\<lambda>t. t) create_simple_klotski"
    by (rule bspec)
  note f3 = f[THEN conjunct2, THEN conjunct2, THEN conjunct1]
  note f4 = f[THEN conjunct2, THEN conjunct2, THEN conjunct2, THEN conjunct2, THEN conjunct2, THEN conjunct1]
  from r f1 have "compute_state_space (\<lambda>t. t) (KlotskiSolver create_simple_klotski) = Some (Inr (sv', g))"
    by simp
  with f2 f3 f4 have "\<exists>sv' g. compute_state_space (\<lambda>t. t) (KlotskiSolver create_simple_klotski) = Some (Inr (sv', g))
        \<and> (\<exists>!k. k < length (g_nodes g)
                \<and> n_id (g_nodes g ! k) = to_hash (\<lambda>t. t) create_simple_klotski)
        \<and> distinct (map n_id (g_nodes g))
        \<and> g_edges g = concat (map (\<lambda>(h, s). map (edge_of (\<lambda>t. t) h) (get_possible_moves s))
                                   (visited_states sv'))"
    by (intro exI conjI)
  with a b c show ?thesis by (intro conjI)
qed

text \<open>
  C10: the first entry of the visited table and of the node list of the emitted graph is
  the initial state, under its fingerprint and with its position array.
\<close>

theorem first_node_is_initial_state:
  assumes inj: "inj H" and run: "compute_state_space H (KlotskiSolver init) = Some r"
  shows "\<exists>sv' g. r = Inr (sv', g) \<and> g_nodes g \<noteq> []
     \<and> hd (visited_states sv') = (to_hash H init, init)
     \<and> hd (g_nodes g) = \<lparr>n_id = to_hash H init, n_positions = to_position_array init\<rparr>"
proof -
  from compute_state_space_inv[OF inj run] obtain sv' where r: "r = Inr (sv', create_graph_json sv')"
    and inv: "explorer_inv H init sv'" and q: "queue sv' = []" by blast
  from explorer_invD(10)[OF inv] q have ne: "visited_states sv' \<noteq> []"
    and h: "hd (visited_states sv') = (to_hash H init, init)"
    by (auto split: if_splits)
  from ne h have "g_nodes (create_graph_json sv') \<noteq> []"
    "hd (g_nodes (create_graph_json sv')) = \<lparr>n_id = to_hash H init, n_positions = to_position_array init\<rparr>"
    by (simp_all add: create_graph_json_def Let_def hd_map)
  with r h show ?thesis by blast
qed

theorem first_node_is_initial_state_witness:
  "inj (\<lambda>t::geometry list. t)
   \<and> (\<exists>sv' g. compute_state_space (\<lambda>t. t) (KlotskiSolver create_simple_klotski) = Some (Inr (sv', g))
        \<and> g_nodes g \<noteq> []
        \<and> hd (g_nodes g) = \<lparr>n_id = to_hash (\<lambda>t. t) create_simple_klotski,
                             n_positions = [(0, 0), (2, 0), (0, 2), (1, 2)]\<rparr>)"
proof -
  have a: "inj (\<lambda>t::geometry list. t)" by simp
  have p: "to_position_array create_simple_klotski = [(0, 0), (2, 0), (0, 2), (1, 2)]" by code_simp
  from simple_run_returns obtain r where
    r: "compute_state_space (\<lambda>t. t) (KlotskiSolver create_simple_klotski) = Some r" by blast
  from first_node_is_initial_state [OF a r] obtain sv' g where
    "r = Inr (sv', g)" "g_nodes g \<noteq> []"
    "hd (g_nodes g) = \<lparr>n_id = to_hash (\<lambda>t. t) create_simple_klotski,
                         n_positions = to_position_array create_simple_klotski\<rparr>"
    by (elim exE conjE)
  with r p have "\<exists>sv' g. compute_state_space (\<lambda>t. t) (KlotskiSolver create_simple_klotski) = Some (Inr (sv', g))
        \<and> g_nodes g \<noteq> []
        \<and> hd (g_nodes g) = \<lparr>n_id = to_hash (\<lambda>t. t) create_simple_klotski,
                             n_positions = [(0, 0), (2, 0), (0, 2), (1, 2)]\<rparr>"
    by simp
  with a show ?thesis by (intro conjI)
qed


lemma loop_body_edges:
  assumes q: "queue sv = c # rest" and b: "loop_body H sv = Inr sv'"
  shows "edges sv' = edges sv @ map (edge_of H (to_hash H c)) (get_possible_moves c)"
  using b unfolding loop_body_def q
  by (auto simp: Let_def fold_record_move_edges split: if_splits)

lemma moves_left_right_up_down:
  "get_possible_moves s =
     concat (map (\<lambda>piece.
        map (\<lambda>(dx, dy, direction).
               (move_pieces s (p_id piece) (p_x piece + dx) (p_y piece + dy), p_id piece, direction))
            (filter (\<lambda>(dx, dy, direction).
               is_valid_position s (p_id piece) (p_x piece + dx) (p_y piece + dy)
                 (p_width piece) (p_height piece))
               [(-1, 0, ''left''), (1, 0, ''right''), (0, -1, ''up''), (0, 1, ''down'')]))
        (pieces s))"
  by (simp add: get_possible_moves_eq moves_in_order_def directions_def)

text \<open>
  C5: the move generator emits the legal moves piece by piece in the order of the piece
  list and, for one piece, in the order left, right, up, down: it is the list of the legal
  candidates among \<open>(-1, 0, left)\<close>, \<open>(1, 0, right)\<close>, \<open>(0, -1, up)\<close>, \<open>(0, 1, down)\<close>
  for each piece in turn. One iteration of the loop appends the edges of these moves, in
  this order, to the edge list, which is the edge list of the graph.
\<close>

theorem moves_order_is_edge_order:
  assumes "queue sv = c # rest" and "loop_body H sv = Inr sv'"
  shows "get_possible_moves s =
     concat (map (\<lambda>piece.
        map (\<lambda>(dx, dy, direction).
               (move_pieces s (p_id piece) (p_x piece + dx) (p_y piece + dy), p_id piece, direction))
            (filter (\<lambda>(dx, dy, direction).
               is_valid_position s (p_id piece) (p_x piece + dx) (p_y piece + dy)
                 (p_width piece) (p_height piece))
               [(-1, 0, ''left''), (1, 0, ''right''), (0, -1, ''up''), (0, 1, ''down'')]))
        (pieces s))
     \<and> edges sv' = edges sv @ map (edge_of H (to_hash H c)) (get_possible_moves c)
     \<and> g_edges (create_graph_json sv') = edges sv'"
  using loop_body_edges[OF assms] moves_left_right_up_down[of s]
  by (simp add: graph_of_solver(2))

theorem moves_order_is_edge_order_witness:
  "queue \<lparr>initial_state = open_board, visited_states = [], edges = [],
           queue = [open_board],
           queued_states = {to_hash (\<lambda>t. t) open_board}\<rparr> = open_board # []
   \<and> (\<exists>sv'. loop_body (\<lambda>t. t) \<lparr>initial_state = open_board, visited_states = [], edges = [],
           queue = [open_board],
           queued_states = {to_hash (\<lambda>t. t) open_board}\<rparr> = Inr sv'
        \<and> map (\<lambda>m. (fst (snd m), snd (snd m))) (get_possible_moves open_board)
            = [(5, ''left''), (5, ''right''), (5, ''up''), (5, ''down''), (2, ''right''), (2, ''down'')]
        \<and> map (\<lambda>e. (e_piece_id e, e_direction e)) (edges sv')
            = [(5, ''left''), (5, ''right''), (5, ''up''), (5, ''down''), (2, ''right''), (2, ''down'')]
        \<and> g_edges (create_graph_json sv') = edges sv')"
proof -
  let ?sv = "\<lparr>initial_state = open_board, visited_states = [], edges = [],
           queue = [open_board],
           queued_states = {to_hash (\<lambda>t. t) open_board}\<rparr> :: geometry list solver"
  let ?l = "[(5, ''left''), (5, ''right''), (5, ''up''), (5, ''down''), (2, ''right''), (2, ''down'')]
     :: (int \<times> string) list"
  have q: "queue ?sv = open_board # []" by simp
  have "(case loop_body (\<lambda>t. t) ?sv of Inr _ \<Rightarrow> True | Inl _ \<Rightarrow> False)" by code_simp
  then obtain sv' where b: "loop_body (\<lambda>t. t) ?sv = Inr sv'" by (auto split: sum.splits)
  have v: "map (\<lambda>m. (fst (snd m), snd (snd m)))
       (concat (map (\<lambda>piece.
        map (\<lambda>(dx, dy, direction).
               (move_pieces open_board (p_id piece) (p_x piece + dx) (p_y piece + dy), p_id piece, direction))
            (filter (\<lambda>(dx, dy, direction).
               is_valid_position open_board (p_id piece) (p_x piece + dx) (p_y piece + dy)
                 (p_width piece) (p_height piece))
               [(-1, 0, ''left''), (1, 0, ''right''), (0, -1, ''up''), (0, 1, ''down'')]))
        (pieces open_board))) = ?l" by code_simp
  from moves_order_is_edge_order [OF q b, of open_board]
  have gm: "get_possible_moves open_board = concat (map (\<lambda>piece.
        map (\<lambda>(dx, dy, direction).
               (move_pieces open_board (p_id piece) (p_x piece + dx) (p_y piece + dy), p_id piece, direction))
            (filter (\<lambda>(dx, dy, direction).
               is_valid_position open_board (p_id piece) (p_x piece + dx) (p_y piece + dy)
                 (p_width piece) (p_height piece))
               [(-1, 0, ''left''), (1, 0, ''right''), (0, -1, ''up''), (0, 1, ''down'')]))
        (pieces open_board))"
    and e: "edges sv' = edges ?sv @ map (edge_of (\<lambda>t. t) (to_hash (\<lambda>t. t) open_board)) (get_possible_moves open_board)"
    and g: "g_edges (create_graph_json sv') = edges sv'" by blast+
  from v have m: "map (\<lambda>m. (fst (snd m), snd (snd m))) (get_possible_moves open_board) = ?l"
    unfolding gm[symmetric] .
  have mm: "map (\<lambda>e. (e_piece_id e, e_direction e)) (edges sv') = ?l"
    unfolding e using m by (simp add: comp_def edge_of_simps)
  have "\<exists>sv'. loop_body (\<lambda>t. t) ?sv = Inr sv'
        \<and> map (\<lambda>m. (fst (snd m), snd (snd m))) (get_possible_moves open_board) = ?l
        \<and> map (\<lambda>e. (e_piece_id e, e_direction e)) (edges sv') = ?l
        \<and> g_edges (create_graph_json sv') = edges sv'"
    by (intro exI[of _ sv'] conjI b m mm g)
  with q show ?thesis by (intro conjI)
qed

lemma explore_errors:
  fixes H :: "geometry list \<Rightarrow> 'h"
  assumes "explore H sv = Some (Inl e)"
  shows "e = KeyError \<or> e = IndexError"
proof -
  let ?Q = "\<lambda>r::error + 'h solver. \<forall>e. r = Inl e \<longrightarrow> e = KeyError \<or> e = IndexError"
  have "?Q (Inl e)"
  proof (rule explore.raw_induct[where P = "\<lambda>(H'::geometry list \<Rightarrow> 'h) (sv::'h solver) r. ?Q r", OF _ assms])
    fix f H' sv r
    assume IH: "\<And>H' sv r. f H' sv = Some r \<Longrightarrow> ?Q r"
      and eq: "(if queue sv = [] then Some (Inr sv)
           else case loop_body H' sv of Inl e \<Rightarrow> Some (Inl e) | Inr sv' \<Rightarrow> f H' sv') = Some r"
    show "?Q r"
    proof (cases "queue sv = []")
      case True with eq show ?thesis by auto
    next
      case False
      show ?thesis
      proof (cases "loop_body H' sv")
        case (Inl e')
        hence "e' = KeyError \<or> e' = IndexError"
          by (auto simp: loop_body_def Let_def split: list.splits if_splits)
        with Inl False eq show ?thesis by auto
      next
        case (Inr sv1)
        with False eq have "f H' sv1 = Some r" by simp
        from IH[OF this] show ?thesis .
      qed
    qed
  qed
  thus ?thesis by simp
qed

lemma simple_run_counts:
  "(case compute_state_space (\<lambda>t. t) (KlotskiSolver create_simple_klotski) of
      Some (Inr (sv, g)) \<Rightarrow> total_nodes g = 4 \<and> total_edges g = 6 | _ \<Rightarrow> False)"
  by code_simp

text \<open>
  C9 (as the code has it): there is no ceiling. The run on the predefined three by three
  puzzle has four nodes and six edges; whatever ceiling below that is configured, it
  returns the whole graph and no \<open>ExplorationLimitExceeded\<close>.
\<close>

theorem no_abort_above_ceiling:
  "\<exists>sv g. compute_state_space (\<lambda>t. t) (KlotskiSolver create_simple_klotski) = Some (Inr (sv, g))
      \<and> total_nodes g = 4 \<and> total_edges g = 6"
  using simple_run_counts by (auto split: option.splits sum.splits)


text \<open>
  C9 (amended): \<^verbatim>\<open>compute_state_space\<close> never fails with
  \<open>ExplorationLimitExceeded\<close>, for any digest and any solver; with a collision-free
  digest a run that ends returns the graph with the counts of the whole visited table and
  edge list, in which every edge ends at a node: it is never a partial graph.
\<close>

theorem no_exploration_limit:
  assumes inj: "inj H" and run: "compute_state_space H (KlotskiSolver init) = Some r"
  shows "compute_state_space H' sv0 \<noteq> Some (Inl ExplorationLimitExceeded)
     \<and> (\<exists>sv' g. r = Inr (sv', g)
           \<and> total_nodes g = length (visited_states sv') \<and> total_edges g = length (edges sv')
           \<and> g_edges g = edges sv'
           \<and> (\<forall>e\<in>set (g_edges g). e_source e \<in> n_id ` set (g_nodes g) \<and> e_target e \<in> n_id ` set (g_nodes g)))"
proof -
  have a: "compute_state_space H' sv0 \<noteq> Some (Inl ExplorationLimitExceeded)"
  proof
    assume "compute_state_space H' sv0 = Some (Inl ExplorationLimitExceeded)"
    hence "explore H' (sv0\<lparr>queue := [initial_state sv0],
                         queued_states := {to_hash H' (initial_state sv0)}\<rparr>) = Some (Inl ExplorationLimitExceeded)"
      by (auto simp: compute_state_space_def split: option.splits sum.splits)
    from explore_errors[OF this] show False by simp
  qed
  from compute_state_space_inv[OF inj run] obtain sv' where r: "r = Inr (sv', create_graph_json sv')"
    and inv: "explorer_inv H init sv'" and q: "queue sv' = []" by blast
  let ?g = "create_graph_json sv'"
  note g = graph_of_solver[of sv']
  have c: "\<forall>e\<in>set (g_edges ?g). e_source e \<in> n_id ` set (g_nodes ?g) \<and> e_target e \<in> n_id ` set (g_nodes ?g)"
    unfolding g(2) g(3) using edges_closed[OF inv q] by blast
  have n: "total_nodes ?g = length (visited_states sv')" "total_edges ?g = length (edges sv')"
    by (simp_all add: create_graph_json_def Let_def)
  show ?thesis
    by (intro conjI a exI[of _ sv'] exI[of _ ?g] r n g(2) c)
qed

theorem no_exploration_limit_witness:
  "inj (\<lambda>t::geometry list. t)
   \<and> compute_state_space (\<lambda>t. t) (KlotskiSolver create_simple_klotski) \<noteq> Some (Inl ExplorationLimitExceeded)
   \<and> (\<exists>sv' g. compute_state_space (\<lambda>t. t) (KlotskiSolver create_simple_klotski) = Some (Inr (sv', g))
        \<and> total_nodes g = length (visited_states sv') \<and> total_edges g = length (edges sv'))"
proof -
  have a: "inj (\<lambda>t::geometry list. t)" by simp
  from simple_run_returns obtain r where
    r: "compute_state_space (\<lambda>t. t) (KlotskiSolver create_simple_klotski) = Some r" by blast
  from no_exploration_limit [OF a r, of "\<lambda>t. t" "KlotskiSolver create_simple_klotski"]
  obtain sv' g where "compute_state_space (\<lambda>t. t) (KlotskiSolver create_simple_klotski) \<noteq> Some (Inl ExplorationLimitExceeded)"
    "r = Inr (sv', g)" "total_nodes g = length (visited_states sv')" "total_edges g = length (edges sv')"
    by (elim exE conjE)
  with r have "\<exists>sv' g. compute_state_space (\<lambda>t. t) (KlotskiSolver create_simple_klotski) = Some (Inr (sv', g))
        \<and> total_nodes g = length (visited_states sv') \<and> total_edges g = length (edges sv')"
    and "compute_state_space (\<lambda>t. t) (KlotskiSolver create_simple_klotski) \<noteq> Some (Inl ExplorationLimitExceeded)"
    by simp_all
  with a show ?thesis by (intro conjI)
qed




lemma reachable_ids:
  assumes "ids_unique init" "s \<in> reachable init"
  shows "ids_unique s"
  using assms(2)
proof (induction rule: reachable.induct)
  case start
  show ?case by (rule assms(1))
next
  case (step s s' i d)
  from step.hyps(2) obtain nx ny where "s' = move_pieces s i nx ny"
    by (auto simp: in_moves_iff)
  with step.IH show ?case by (simp add: ids_unique_def move_ids)
qed

lemma find_direction:
  "(dx, dy, d) \<in> set directions \<Longrightarrow>
     find (\<lambda>(dx, dy, name). name = d) directions = Some (dx, dy, d)"
  by (auto simp: directions_def)

lemma update_as_record:
  "(p::piece)\<lparr>p_x := a, p_y := b\<rparr> =
     \<lparr>p_id = p_id p, p_x = a, p_y = b, p_width = p_width p, p_height = p_height p\<rparr>"
  by simp

lemma apply_move_is_move:
  assumes u: "ids_unique s" and m: "(s', i, d) \<in> set (get_possible_moves s)"
  shows "apply_move s i d = s'"
proof -
  from m obtain piece dx dy where p: "piece \<in> set (pieces s)"
    and dd: "(dx, dy, d) \<in> set directions"
    and s': "s' = move_pieces s (p_id piece) (p_x piece + dx) (p_y piece + dy)"
    and i: "i = p_id piece"
    by (auto simp: in_moves_iff)
  have same: "\<And>q. q \<in> set (pieces s) \<Longrightarrow> p_id q = p_id piece \<Longrightarrow> q = piece"
    using u p by (auto simp: ids_unique_def distinct_map inj_on_def)
  have "map (\<lambda>p. if p_id p = i then p\<lparr>p_x := p_x p + dx, p_y := p_y p + dy\<rparr> else p) (pieces s)
      = pieces s'"
    unfolding s' move_pieces_def i using same by (auto simp: rebuild_same update_as_record)
  moreover have "board_width s' = board_width s" "board_height s' = board_height s"
    unfolding s' by (simp_all add: move_pieces_def)
  ultimately show ?thesis
    unfolding apply_move_def find_direction[OF dd] by simp
qed

lemma two_singles_swap:
  "(case compute_state_space (\<lambda>t. t) (KlotskiSolver two_singles) of
     Some (Inr (sv, g)) \<Rightarrow>
       (\<exists>e\<in>set (g_edges g). \<exists>(h, s)\<in>set (visited_states sv). \<exists>nt\<in>set (g_nodes g).
          h = e_source e \<and> n_id nt = e_target e \<and> e_piece_id e = 0 \<and> e_direction e = ''right''
          \<and> to_position_array s = [(0, 0), (1, 1)]
          \<and> to_position_array (apply_move s (e_piece_id e) (e_direction e)) = [(1, 0), (1, 1)]
          \<and> n_positions nt = [(1, 1), (1, 0)])
   | _ \<Rightarrow> False)"
  by code_simp

lemma simple_run_has_edges:
  "(case compute_state_space (\<lambda>t. t) (KlotskiSolver create_simple_klotski) of
      Some (Inr (sv, g)) \<Rightarrow> g_edges g \<noteq> [] | _ \<Rightarrow> False)"
  by code_simp


text \<open>
  C2 (as the code has it): on a two by two board with two unit pieces, the recorded edge
  (piece 0, right) out of the node with positions \<open>[(0, 0), (1, 1)]\<close> replays to
  \<open>[(1, 0), (1, 1)]\<close>, while the node stored under the edge's target fingerprint has the
  positions \<open>[(1, 1), (1, 0)]\<close>: the same cells with the two pieces exchanged.
\<close>

theorem replay_differs_from_target_node:
  "\<exists>sv g. compute_state_space (\<lambda>t. t) (KlotskiSolver two_singles) = Some (Inr (sv, g))
      \<and> (\<exists>e\<in>set (g_edges g). \<exists>(h, s)\<in>set (visited_states sv). \<exists>nt\<in>set (g_nodes g).
            h = e_source e \<and> n_id nt = e_target e
            \<and> to_position_array (apply_move s (e_piece_id e) (e_direction e)) \<noteq> n_positions nt)"
proof -
  from two_singles_swap obtain sv g where
    r: "compute_state_space (\<lambda>t. t) (KlotskiSolver two_singles) = Some (Inr (sv, g))"
    by (auto split: option.splits sum.splits)
  from two_singles_swap have x: "\<exists>e\<in>set (g_edges g). \<exists>(h, s)\<in>set (visited_states sv). \<exists>nt\<in>set (g_nodes g).
          h = e_source e \<and> n_id nt = e_target e \<and> e_piece_id e = 0 \<and> e_direction e = ''right''
          \<and> to_position_array s = [(0, 0), (1, 1)]
          \<and> to_position_array (apply_move s (e_piece_id e) (e_direction e)) = [(1, 0), (1, 1)]
          \<and> n_positions nt = [(1, 1), (1, 0)]"
    unfolding r by simp
  then obtain e hs nt where e: "e \<in> set (g_edges g)" and hs: "hs \<in> set (visited_states sv)"
    and nt: "nt \<in> set (g_nodes g)"
    and f: "fst hs = e_source e" "n_id nt = e_target e"
      "to_position_array (apply_move (snd hs) (e_piece_id e) (e_direction e)) = [(1, 0), (1, 1)]"
      "n_positions nt = [(1, 1), (1, 0)]"
    by (auto simp: case_prod_unfold)
  from f have ne: "to_position_array (apply_move (snd hs) (e_piece_id e) (e_direction e)) \<noteq> n_positions nt"
    by simp
  have "\<exists>e\<in>set (g_edges g). \<exists>(h, s)\<in>set (visited_states sv). \<exists>nt\<in>set (g_nodes g).
            h = e_source e \<and> n_id nt = e_target e
            \<and> to_position_array (apply_move s (e_piece_id e) (e_direction e)) \<noteq> n_positions nt"
    apply (rule bexI[OF _ e])
    apply (rule bexI[OF _ hs])
    apply (simp only: case_prod_unfold)
    apply (rule bexI[OF _ nt])
    apply (intro conjI f(1) f(2) ne)
    done
  with r show ?thesis by (intro exI conjI)
qed


text \<open>
  C2 (amended): for every edge of the emitted graph, the source and the target are nodes;
  the recorded move is a legal move of the source node's state, and replaying it (the
  piece with the recorded id translated by one unit in the recorded direction, the others
  unchanged) gives a state with the target's fingerprint, that is, with the same multiset
  of \<open>(x, y, width, height)\<close> as the target node's state.
\<close>

theorem replay_reaches_target_geometry:
  assumes inj: "inj H" and u: "ids_unique init"
    and run: "compute_state_space H (KlotskiSolver init) = Some (Inr (sv', g))"
    and e: "e \<in> set (g_edges g)"
  shows "\<exists>s t. (e_source e, s) \<in> set (visited_states sv') \<and> (e_target e, t) \<in> set (visited_states sv')
     \<and> \<lparr>n_id = e_source e, n_positions = to_position_array s\<rparr> \<in> set (g_nodes g)
     \<and> \<lparr>n_id = e_target e, n_positions = to_position_array t\<rparr> \<in> set (g_nodes g)
     \<and> (apply_move s (e_piece_id e) (e_direction e), e_piece_id e, e_direction e) \<in> set (get_possible_moves s)
     \<and> to_hash H (apply_move s (e_piece_id e) (e_direction e)) = e_target e
     \<and> mset (map geom (pieces (apply_move s (e_piece_id e) (e_direction e)))) = mset (map geom (pieces t))"
proof -
  from compute_state_space_inv[OF inj run] have g: "g = create_graph_json sv'"
    and inv: "explorer_inv H init sv'" and q: "queue sv' = []" by auto
  from e have "e \<in> set (edges sv')" unfolding g by (simp add: graph_of_solver)
  with explorer_invD(7)[OF inv] obtain h s m where hs: "(h, s) \<in> set (visited_states sv')"
    and m: "m \<in> set (get_possible_moves s)" and ee: "e = edge_of H h m"
    by auto
  obtain s' i d where mm: "m = (s', i, d)" by (cases m)
  from explorer_invD(9)[OF inv] hs have "s \<in> reachable init" by force
  from reachable_ids[OF u this] have us: "ids_unique s" .
  from apply_move_is_move[OF us m[unfolded mm]] have am: "apply_move s i d = s'" .
  from final_keys(2)[OF inv q hs m] obtain t where t: "(to_hash H s', t) \<in> set (visited_states sv')"
    unfolding mm by force
  with explorer_invD(4)[OF inv] have "to_hash H s' = to_hash H t" by blast
  with inj have "to_tuple s' = to_tuple t" by (simp add: to_hash_def inj_def)
  hence ms: "mset (map geom (pieces s')) = mset (map geom (pieces t))" by (metis mset_to_tuple)
  have f: "e_source e = h" "e_target e = to_hash H s'" "e_piece_id e = i" "e_direction e = d"
    unfolding ee mm by (simp_all add: edge_of_simps)
  have n1: "\<lparr>n_id = h, n_positions = to_position_array s\<rparr> \<in> set (g_nodes g)"
    unfolding g using hs by (force simp: create_graph_json_def Let_def)
  have n2: "\<lparr>n_id = to_hash H s', n_positions = to_position_array t\<rparr> \<in> set (g_nodes g)"
    unfolding g using t by (force simp: create_graph_json_def Let_def)
  have hs': "(h, s) \<in> set (visited_states sv')" by (rule hs)
  show ?thesis unfolding f am
    apply (rule exI[of _ s])
    apply (rule exI[of _ t])
    apply (intro conjI hs t n1 n2)
    using m[unfolded mm] ms apply (simp_all only: am)
    done
qed



theorem replay_reaches_target_geometry_witness:
  "inj (\<lambda>t::geometry list. t) \<and> ids_unique create_simple_klotski
   \<and> (\<exists>sv' g e. compute_state_space (\<lambda>t. t) (KlotskiSolver create_simple_klotski) = Some (Inr (sv', g))
        \<and> e \<in> set (g_edges g)
        \<and> (\<exists>s t. (e_source e, s) \<in> set (visited_states sv') \<and> (e_target e, t) \<in> set (visited_states sv')
             \<and> to_hash (\<lambda>t. t) (apply_move s (e_piece_id e) (e_direction e)) = e_target e
             \<and> mset (map geom (pieces (apply_move s (e_piece_id e) (e_direction e))))
                 = mset (map geom (pieces t))))"
proof -
  have a: "inj (\<lambda>t::geometry list. t)" by simp
  have b: "ids_unique create_simple_klotski" by code_simp
  from simple_run_has_edges obtain sv' g where
    r: "compute_state_space (\<lambda>t. t) (KlotskiSolver create_simple_klotski) = Some (Inr (sv', g))"
    by (auto split: option.splits sum.splits)
  from simple_run_has_edges have "g_edges g \<noteq> []" unfolding r by simp
  hence e: "hd (g_edges g) \<in> set (g_edges g)" by simp
  from replay_reaches_target_geometry [OF a b r e]
  obtain s t where st: "(e_source (hd (g_edges g)), s) \<in> set (visited_states sv')"
    "(e_target (hd (g_edges g)), t) \<in> set (visited_states sv')"
    "to_hash (\<lambda>t. t) (apply_move s (e_piece_id (hd (g_edges g))) (e_direction (hd (g_edges g)))) = e_target (hd (g_edges g))"
    "mset (map geom (pieces (apply_move s (e_piece_id (hd (g_edges g))) (e_direction (hd (g_edges g))))))
                 = mset (map geom (pieces t))"
    by (elim exE conjE)
  have "\<exists>sv' g e. compute_state_space (\<lambda>t. t) (KlotskiSolver create_simple_klotski) = Some (Inr (sv', g))
        \<and> e \<in> set (g_edges g)
        \<and> (\<exists>s t. (e_source e, s) \<in> set (visited_states sv') \<and> (e_target e, t) \<in> set (visited_states sv')
             \<and> to_hash (\<lambda>t. t) (apply_move s (e_piece_id e) (e_direction e)) = e_target e
             \<and> mset (map geom (pieces (apply_move s (e_piece_id e) (e_direction e))))
                 = mset (map geom (pieces t)))"
    apply (rule exI[of _ sv'], rule exI[of _ g], rule exI[of _ "hd (g_edges g)"])
    apply (intro conjI r e)
    apply (rule exI[of _ s], rule exI[of _ t])
    apply (intro conjI st)
    done
  with a b show ?thesis by (intro conjI)
qed


section \<open>The claims about pieces, fingerprints and moves\<close>

text \<open>
  C3: a successor emitted by the move generator from a state (one piece per id) that
  satisfies the state invariant satisfies it again: its pieces are pairwise disjoint and
  every occupied cell lies in \<open>[0, board_width) \<times> [0, board_height)\<close>; the ids stay
  unique.
\<close>

theorem successor_invariant:
  assumes "ids_unique s" "state_invariant s" "(s', i, d) \<in> set (get_possible_moves s)"
  shows "ids_unique s' \<and> state_invariant s'"
  using assms by (rule move_keeps_invariant)

theorem successor_invariant_witness:
  "ids_unique create_simple_klotski \<and> state_invariant create_simple_klotski
   \<and> (\<lparr>pieces = [mk_piece 0 0 0 2 2, mk_piece 1 2 1 1 2, mk_piece 2 0 2 1 1, mk_piece 3 1 2 1 1],
        board_width = 3, board_height = 3\<rparr>, 1, ''down'')
       \<in> set (get_possible_moves create_simple_klotski)
   \<and> ids_unique \<lparr>pieces = [mk_piece 0 0 0 2 2, mk_piece 1 2 1 1 2, mk_piece 2 0 2 1 1, mk_piece 3 1 2 1 1],
        board_width = 3, board_height = 3\<rparr>
   \<and> state_invariant \<lparr>pieces = [mk_piece 0 0 0 2 2, mk_piece 1 2 1 1 2, mk_piece 2 0 2 1 1, mk_piece 3 1 2 1 1],
        board_width = 3, board_height = 3\<rparr>"
proof -
  let ?s' = "\<lparr>pieces = [mk_piece 0 0 0 2 2, mk_piece 1 2 1 1 2, mk_piece 2 0 2 1 1, mk_piece 3 1 2 1 1],
        board_width = 3, board_height = 3\<rparr>"
  have a: "ids_unique create_simple_klotski" by code_simp
  have b: "state_invariant create_simple_klotski" by code_simp
  have c: "(?s', 1, ''down'') \<in> set (get_possible_moves create_simple_klotski)" by code_simp
  from successor_invariant [OF a b c] a b c show ?thesis by simp
qed

section \<open>Properties of the packed binary format\<close>

lemma length_le_bytes [simp]: "length (le_bytes k n) = k"
  by (simp add: le_bytes_def)

lemma le_bytes_Suc: "le_bytes (Suc k) n = of_nat (n mod 256) # le_bytes k (n div 256)"
proof -
  have "[0..<Suc k] = 0 # map Suc [0..<k]" by (simp add: upt_conv_Cons map_Suc_upt del: upt_Suc)
  thus ?thesis by (simp add: le_bytes_def comp_def div_mult2_eq del: upt_Suc)
qed

lemma le_bytes_0 [simp]: "le_bytes 0 n = []"
  by (simp add: le_bytes_def)

lemma unat_byte_of_nat: "unat (of_nat (n mod 256) :: byte) = n mod 256"
  by (simp add: unat_of_nat)

lemma le_value_le_bytes: "n < 256 ^ k \<Longrightarrow> le_value (le_bytes k n) = n"
proof (induction k arbitrary: n)
  case 0
  then show ?case by (simp add: le_value_def)
next
  case (Suc k)
  from Suc.prems have "n div 256 < 256 ^ k" by (simp add: less_mult_imp_div_less mult.commute)
  from Suc.IH[OF this] show ?case
    by (simp add: le_bytes_Suc le_value_def unat_byte_of_nat)
qed

lemma pack_all_map_Inr:
  assumes "pack_all (map f xs) = Inr bs"
  shows "(\<forall>x\<in>set xs. f x = Inr (projr (f x))) \<and> bs = concat (map (\<lambda>x. projr (f x)) xs)"
  using assms
  by (induction xs arbitrary: bs) (auto split: sum.splits)

lemma pack_all_map_ok:
  assumes "\<forall>x\<in>set xs. f x = Inr (g x)"
  shows "pack_all (map f xs) = Inr (concat (map g xs))"
  using assms by (induction xs) auto

lemma getUint_at:
  assumes "drop off buf = bs @ rest" "length bs = k" "0 < k"
  shows "getUint k buf off = Inr (le_value bs)"
proof -
  from assms have "length (drop off buf) \<ge> k" by simp
  with assms(3) have "off + k \<le> length buf" by simp
  with assms show ?thesis by (simp add: getUint_def)
qed

lemma getUint_fails: "isl (getUint k buf off) \<longleftrightarrow> length buf < off + k"
  by (auto simp: getUint_def)

lemma bind_parse_simps [simp]:
  "bind_parse (Inr x) f = f x"
  "bind_parse (Inl e) f = Inl e"
  by (simp_all add: bind_parse_def)

lemma isl_bind_parse: "isl (bind_parse m f) \<longleftrightarrow> isl m \<or> isl (f (projr m))"
  by (cases m) simp_all

lemma read_array_decode:
  assumes rd: "\<And>x off rest. x \<in> set xs \<Longrightarrow> drop off buf = enc x @ rest \<Longrightarrow> rd buf off = Inr (dec x)"
    and len: "\<And>x. x \<in> set xs \<Longrightarrow> length (enc x) = step"
    and buf: "drop off buf = concat (map enc xs) @ rest"
  shows "read_array rd step buf off (length xs) = Inr (map dec xs)"
  using assms
proof (induction xs arbitrary: off)
  case Nil
  then show ?case by simp
next
  case (Cons x xs)
  from Cons.prems(3) have d: "drop off buf = enc x @ (concat (map enc xs) @ rest)" by simp
  from Cons.prems(1)[OF _ d] have r: "rd buf off = Inr (dec x)" by simp
  have "drop (off + step) buf = drop step (drop off buf)" by (simp add: add.commute)
  also have "\<dots> = concat (map enc xs) @ rest" unfolding d using Cons.prems(2)[of x] by simp
  finally have d': "drop (off + step) buf = concat (map enc xs) @ rest" .
  have "read_array rd step buf (off + step) (length xs) = Inr (map dec xs)"
    by (rule Cons.IH[OF _ _ d']) (auto intro: Cons.prems(1) Cons.prems(2))
  with r show ?case by simp
qed

lemma read_array_fails:
  assumes "\<And>off. isl (rd buf off) \<longleftrightarrow> 0 < step \<and> length buf < off + step"
  shows "isl (read_array rd step buf off n) \<longleftrightarrow> 0 < n \<and> 0 < step \<and> length buf < off + step * n"
proof (induction n arbitrary: off)
  case 0
  show ?case by simp
next
  case (Suc n)
  have "isl (read_array rd step buf off (Suc n)) \<longleftrightarrow>
      isl (rd buf off) \<or> isl (read_array rd step buf (off + step) n)"
    by (cases "rd buf off"; cases "read_array rd step buf (off + step) n") simp_all
  also have "\<dots> \<longleftrightarrow> (0 < step \<and> length buf < off + step)
      \<or> (0 < n \<and> 0 < step \<and> length buf < off + step + step * n)"
    unfolding assms Suc.IH ..
  also have "\<dots> \<longleftrightarrow> 0 < step \<and> length buf < off + step * Suc n"
    by (cases n) auto
  finally show ?case by simp
qed

lemma length_read_array:
  "read_array rd step buf off n = Inr xs \<Longrightarrow> length xs = n"
proof (induction n arbitrary: off xs)
  case 0
  then show ?case by simp
next
  case (Suc n)
  then show ?case
    by (cases "rd buf off"; cases "read_array rd step buf (off + step) n") auto
qed

lemma getUint8_fails: "isl (getUint8 buf off) \<longleftrightarrow> length buf < off + 1"
  by (simp add: getUint8_def getUint_fails)

lemma read_pair_fails: "isl (read_pair buf off) \<longleftrightarrow> 0 < (2::nat) \<and> length buf < off + 2"
  unfolding read_pair_def isl_bind_parse getUint8_fails by auto

lemma read_node_id_fails: "isl (read_node_id buf off) \<longleftrightarrow> 0 < (16::nat) \<and> length buf < off + 16"
  by (auto simp: read_node_id_def)

lemma getInt16_fails: "isl (getInt16 buf off) \<longleftrightarrow> length buf < off + 2"
  by (auto simp: getInt16_def getUint_def)

lemma read_xyz_fails: "isl (read_xyz raw buf off) \<longleftrightarrow> 0 < (6::nat) \<and> length buf < off + 6"
  unfolding read_xyz_def isl_bind_parse getInt16_fails by auto

lemma read_edge_fails: "isl (read_edge ids buf off) \<longleftrightarrow> 0 < (10::nat) \<and> length buf < off + 10"
  unfolding read_edge_def isl_bind_parse getUint8_def getUint32_def getUint_fails by auto

lemma read_positions_fails:
  "isl (read_array read_pair 2 buf off pc) \<longleftrightarrow> 0 < 2 * pc \<and> length buf < off + 2 * pc"
  unfolding read_array_fails[of read_pair buf 2, OF read_pair_fails] by auto

lemma getUint8_at: "drop off buf = b # rest \<Longrightarrow> getUint8 buf off = Inr (unat b)"
  using getUint_at[of off buf "[b]" rest 1] by (simp add: getUint8_def le_value_def)

lemma read_magic:
  assumes "4 \<le> length buf"
  shows "read_array getUint8 1 buf 0 4 = Inr (map unat (take 4 buf))"
proof -
  have "read_array getUint8 1 buf 0 (length (take 4 buf)) = Inr (map unat (take 4 buf))"
  proof (rule read_array_decode[where enc = "\<lambda>b. [b]" and rest = "drop 4 buf"])
    show "drop 0 buf = concat (map (\<lambda>b. [b]) (take 4 buf)) @ drop 4 buf" by simp
  qed (simp_all add: getUint8_at)
  with assms show ?thesis by simp
qed

lemma read_magic_fails: "isl (read_array getUint8 1 buf 0 4) \<longleftrightarrow> length buf < 4"
proof -
  have "\<And>off. isl (getUint8 buf off) \<longleftrightarrow> 0 < (1::nat) \<and> length buf < off + 1"
    by (simp add: getUint8_fails)
  from read_array_fails[of getUint8 buf 1 0 4, OF this] show ?thesis by auto
qed

lemma map_unat_eq: "map unat xs = map unat ys \<longleftrightarrow> xs = (ys :: byte list)"
  by (rule inj_map_eq_map) (simp add: inj_def word_unat_eq_iff)

lemma header_reads:
  assumes "20 \<le> length buf"
  shows "getUint16 buf 4 = Inr (le_value (take 2 (drop 4 buf)))"
    "getUint32 buf 6 = Inr (le_value (take 4 (drop 6 buf)))"
    "getUint32 buf 10 = Inr (le_value (take 4 (drop 10 buf)))"
    "getUint16 buf 14 = Inr (le_value (take 2 (drop 14 buf)))"
    "getUint8 buf 16 = Inr (le_value (take 1 (drop 16 buf)))"
    "getUint8 buf 17 = Inr (le_value (take 1 (drop 17 buf)))"
    "getUint16 buf 18 = Inr (le_value (take 2 (drop 18 buf)))"
  using assms by (simp_all add: getUint16_def getUint32_def getUint8_def getUint_def)

lemma sections_in_bounds:
  fixes pc nc ec len :: nat
  assumes "20 \<le> len"
  shows "(0 < pc \<and> 0 < (2::nat) \<and> len < 20 + 2 * pc
      \<or> 0 < nc \<and> 0 < (16::nat) \<and> len < 20 + 2 * pc + 16 * nc
      \<or> 0 < nc \<and> 0 < 2 * pc \<and> len < 20 + 2 * pc + 16 * nc + 2 * pc * nc
      \<or> 0 < nc \<and> 0 < (6::nat) \<and> len < 20 + 2 * pc + 16 * nc + 2 * pc * nc + 6 * nc
      \<or> 0 < ec \<and> 0 < (10::nat) \<and> len < 20 + 2 * pc + 16 * nc + 2 * pc * nc + 6 * nc + 10 * ec)
     \<longleftrightarrow> len < 20 + 2 * pc + 16 * nc + 2 * pc * nc + 6 * nc + 10 * ec"
proof -
  define m where "m = pc * nc"
  have m0: "pc = 0 \<or> nc = 0 \<Longrightarrow> m = 0" by (auto simp: m_def)
  have e: "2 * pc * nc = 2 * m" by (simp add: m_def)
  show ?thesis unfolding e using assms m0 by (cases "pc = 0"; cases "nc = 0"; cases "ec = 0") auto
qed

lemma parse_fails_iff:
  "isl (parsePackedGraph buf) \<longleftrightarrow>
     length buf < 20 \<or> length buf < declared_size buf \<or> take 4 buf \<noteq> MAGIC"
proof (cases "length buf < 4")
  case True
  hence "isl (read_array getUint8 1 buf 0 4)" by (simp only: read_magic_fails)
  hence "isl (parsePackedGraph buf)" unfolding parsePackedGraph_def isl_bind_parse by (rule disjI1)
  with True show ?thesis by simp
next
  case False
  with read_magic[of buf] have m: "read_array getUint8 1 buf 0 4 = Inr (map unat (take 4 buf))"
    by simp
  show ?thesis
  proof (cases "take 4 buf = MAGIC")
    case F2: False
    hence "parsePackedGraph buf = Inl InvalidMagic"
      unfolding parsePackedGraph_def m by (simp add: map_unat_eq)
    with F2 show ?thesis by simp
  next
    case True
    show ?thesis
    proof (cases "length buf < 20")
      case T2: True
      hence "isl (getUint16 buf 18)" by (simp add: getUint16_def getUint_fails)
      hence "isl (parsePackedGraph buf)"
        unfolding parsePackedGraph_def m by (simp add: True isl_bind_parse Let_def)
      with T2 show ?thesis by simp
    next
      case F3: False
      hence l: "20 \<le> length buf" by simp
      note rf = read_array_fails[of read_pair buf 2, OF read_pair_fails]
        read_array_fails[of read_node_id buf 16, OF read_node_id_fails]
        read_array_fails[of "read_xyz _" buf 6, OF read_xyz_fails]
        read_array_fails[of "read_edge _" buf 10, OF read_edge_fails]
        read_array_fails[of "\<lambda>buffer offset. read_array read_pair 2 buffer offset _" buf "2 * _",
          OF read_positions_fails]
      have "isl (parsePackedGraph buf) \<longleftrightarrow> length buf < declared_size buf"
        unfolding parsePackedGraph_def m bind_parse_simps header_reads[OF l] True Let_def
          declared_size_def
        using sections_in_bounds[OF l, of "le_value (take 2 (drop 14 buf))"
          "le_value (take 4 (drop 6 buf))" "le_value (take 4 (drop 10 buf))"]
        by (simp add: isl_bind_parse rf mult.assoc)
      with True F3 show ?thesis by simp
    qed
  qed
qed

lemma drop_past: "drop off buf = xs @ rest \<Longrightarrow> drop (off + length xs) buf = rest"
  by (metis add.commute append_eq_conv_conj drop_drop)

lemma drop_past_k:
  "drop off buf = xs @ rest \<Longrightarrow> length xs = k \<Longrightarrow> off' = off + k \<Longrightarrow> drop off' buf = rest"
  using drop_past by blast

lemma le_bytes_1: "n < 256 \<Longrightarrow> le_bytes 1 n = [of_nat n]"
  by (simp add: le_bytes_def)

lemma pack_u8_Inr:
  "pack_u8 v = Inr bs \<longleftrightarrow> 0 \<le> v \<and> v \<le> 255 \<and> bs = le_bytes 1 (nat v)"
  by (auto simp: pack_u8_def)

lemma pack_u16_Inr:
  "pack_u16 v = Inr bs \<longleftrightarrow> 0 \<le> v \<and> v \<le> 65535 \<and> bs = le_bytes 2 (nat v)"
  by (auto simp: pack_u16_def)

lemma pack_u32_Inr:
  "pack_u32 v = Inr bs \<longleftrightarrow> 0 \<le> v \<and> v \<le> 4294967295 \<and> bs = le_bytes 4 (nat v)"
  by (auto simp: pack_u32_def)

lemma pack_i16_Inr:
  "pack_i16 v = Inr bs \<longleftrightarrow> - 32768 \<le> v \<and> v \<le> 32767 \<and> bs = le_bytes 2 (nat (v mod 65536))"
  by (auto simp: pack_i16_def)

lemma pack_all_Cons_Inr:
  "pack_all (r # rs) = Inr bs \<longleftrightarrow> (\<exists>b cs. r = Inr b \<and> pack_all rs = Inr cs \<and> bs = b @ cs)"
  by (auto split: sum.splits)

lemma pack_all_Nil_Inr: "pack_all [] = Inr bs \<longleftrightarrow> bs = []"
  by auto

lemma getUint_field:
  assumes "drop off buf = le_bytes k n @ rest" "0 < k" "n < 256 ^ k"
  shows "getUint k buf off = Inr n"
  using getUint_at[OF assms(1) _ assms(2)] le_value_le_bytes[OF assms(3)] by simp

text \<open>Two unsigned bytes written by one \<^verbatim>\<open>struct.pack('<BB', ...)\<close> and read back.\<close>

lemma read_pair_at:
  assumes "drop off buf = le_bytes 1 a @ le_bytes 1 b @ rest" "a < 256" "b < 256"
  shows "read_pair buf off = Inr (a, b)"
proof -
  have 1: "getUint8 buf off = Inr a"
    unfolding getUint8_def using getUint_field[OF assms(1)] assms(2) by simp
  from drop_past[OF assms(1)] have "drop (off + 1) buf = le_bytes 1 b @ rest" by simp
  from getUint_field[OF this] assms(3) have 2: "getUint8 buf (off + 1) = Inr b"
    unfolding getUint8_def by simp
  show ?thesis unfolding read_pair_def 1 2 by simp
qed

lemma pack_pair_Inr:
  assumes "pack_all [pack_u8 a, pack_u8 b] = Inr bs"
  shows "0 \<le> a \<and> a \<le> 255 \<and> 0 \<le> b \<and> b \<le> 255 \<and> bs = le_bytes 1 (nat a) @ le_bytes 1 (nat b)"
  using assms unfolding pack_all_Cons_Inr pack_all_Nil_Inr pack_u8_Inr by auto

lemma pack_pair_len:
  assumes p: "pack_all [pack_u8 a, pack_u8 b] = Inr bs"
  shows "length bs = 2"
  using pack_pair_Inr[OF p] by simp

lemma pack_pair_read:
  assumes p: "pack_all [pack_u8 a, pack_u8 b] = Inr bs" and d: "drop off buf = bs @ rest"
  shows "read_pair buf off = Inr (nat a, nat b)"
proof -
  from pack_pair_Inr[OF p] have r: "0 \<le> a" "a \<le> 255" "0 \<le> b" "b \<le> 255"
    and bs: "bs = le_bytes 1 (nat a) @ le_bytes 1 (nat b)" by simp_all
  from d have "drop off buf = le_bytes 1 (nat a) @ le_bytes 1 (nat b) @ rest" unfolding bs by simp
  from read_pair_at[OF this] r show "read_pair buf off = Inr (nat a, nat b)" by simp
qed

text \<open>A fingerprint of lowercase hexadecimal digits, sixteen bytes, and the text the decoder rebuilds.\<close>

lemma hex_digit_facts:
  assumes "c \<in> set hex_digits"
  shows "\<not> is_space c" "\<exists>v<16. hex_val c = Some v \<and> hex_digits ! v = c"
  using assms by (auto simp: hex_digits_def is_space_def hex_val_def)

lemma byte_hex_pair:
  assumes "hi < 16" "lo < 16"
  shows "byte_hex (of_nat (16 * hi + lo)) = [hex_digits ! hi, hex_digits ! lo]"
proof -
  from assms have "16 * hi + lo < 256" by simp
  hence "unat (of_nat (16 * hi + lo) :: byte) = 16 * hi + lo" unfolding unat_of_nat by simp
  with assms show ?thesis by (simp add: byte_hex_def)
qed

lemma fromhex_lower:
  assumes "set s \<subseteq> set hex_digits" "even (length s)"
  shows "\<exists>bs. fromhex s = Inr bs \<and> 2 * length bs = length s \<and> concat (map byte_hex bs) = s"
  using assms
proof (induction s rule: induct_list012)
  case 1
  show ?case by simp
next
  case (2 c)
  then show ?case by simp
next
  case (3 c d s)
  from 3 obtain bs where bs: "fromhex s = Inr bs" "2 * length bs = length s" "concat (map byte_hex bs) = s"
    by auto
  from 3(3) have c: "c \<in> set hex_digits" and d: "d \<in> set hex_digits" by auto
  from hex_digit_facts[OF c] obtain hi where hi: "\<not> is_space c" "hi < 16" "hex_val c = Some hi" "hex_digits ! hi = c"
    by auto
  from hex_digit_facts[OF d] obtain lo where lo: "lo < 16" "hex_val d = Some lo" "hex_digits ! lo = d"
    by auto
  have "fromhex (c # d # s) = Inr (of_nat (16 * hi + lo) # bs)"
    using hi lo bs by simp
  moreover have "concat (map byte_hex (of_nat (16 * hi + lo) # bs)) = c # d # s"
    using byte_hex_pair[OF hi(2) lo(1)] hi lo bs by simp
  ultimately show ?case using bs(2) by simp
qed

lemma read_node_id_at:
  assumes "drop off buf = bs @ rest" "length bs = 16"
  shows "read_node_id buf off = Inr (concat (map byte_hex bs))"
proof -
  from assms have "length (drop off buf) \<ge> 16" by simp
  hence "off + 16 \<le> length buf" by simp
  with assms show ?thesis by (simp add: read_node_id_def)
qed

text \<open>A signed 16 bit field and the quantized coordinates.\<close>

lemma getInt16_at:
  assumes "drop off buf = le_bytes 2 (nat (v mod 65536)) @ rest" "- 32768 \<le> v" "v \<le> 32767"
  shows "getInt16 buf off = Inr v"
proof -
  have "nat (v mod 65536) < 256 ^ 2" by (simp add: nat_less_iff)
  from getUint_field[OF assms(1) _ this] have g: "getUint 2 buf off = Inr (nat (v mod 65536))" by simp
  show ?thesis
  proof (cases "0 \<le> v")
    case True
    with assms have "v mod 65536 = v" by simp
    with True assms g show ?thesis by (simp add: getInt16_def)
  next
    case False
    with assms have "v mod 65536 = v + 65536"
      by (smt (verit) mod_add_self2 mod_pos_pos_trivial)
    with False assms g show ?thesis by (simp add: getInt16_def)
  qed
qed

lemma quantize_range: "- 32768 \<le> quantize_position v \<and> quantize_position v \<le> 32767"
  by (simp add: quantize_position_def Let_def)

lemma dequantize_10: "dequantize 10 v = Num (of_int v)"
  by (simp add: dequantize_def)

lemma xyz_read:
  assumes d: "drop off buf = le_bytes 2 (nat (a mod 65536)) @ le_bytes 2 (nat (b mod 65536))
        @ le_bytes 2 (nat (c mod 65536)) @ rest"
    and r: "- 32768 \<le> a" "a \<le> 32767" "- 32768 \<le> b" "b \<le> 32767" "- 32768 \<le> c" "c \<le> 32767"
  shows "read_xyz 10 buf off = Inr (Num (of_int a), Num (of_int b), Num (of_int c))"
proof -
  from getInt16_at[OF d r(1,2)] have 1: "getInt16 buf off = Inr a" .
  have d2: "drop (off + 2) buf = le_bytes 2 (nat (b mod 65536))
        @ le_bytes 2 (nat (c mod 65536)) @ rest"
    by (rule drop_past_k[OF d]) simp_all
  from getInt16_at[OF d2 r(3,4)] have 2: "getInt16 buf (off + 2) = Inr b" .
  have d3: "drop (off + 4) buf = le_bytes 2 (nat (c mod 65536)) @ rest"
    by (rule drop_past_k[OF d2]) simp_all
  from getInt16_at[OF d3 r(5,6)] have 3: "getInt16 buf (off + 4) = Inr c" .
  show ?thesis unfolding read_xyz_def 1 2 3 by (simp add: dequantize_10)
qed

lemma length_concat_const:
  "(\<And>x. x \<in> set xs \<Longrightarrow> length (f x) = k) \<Longrightarrow> length (concat (map f xs)) = k * length xs"
  by (induction xs) simp_all

lemma section_length:
  assumes p: "pack_all (map f xs) = Inr bs"
    and len: "\<And>x b. x \<in> set xs \<Longrightarrow> f x = Inr b \<Longrightarrow> length b = step"
  shows "length bs = step * length xs"
proof -
  from pack_all_map_Inr[OF p] have ok: "\<And>x. x \<in> set xs \<Longrightarrow> f x = Inr (projr (f x))"
    and bs: "bs = concat (map (\<lambda>x. projr (f x)) xs)" by auto
  show ?thesis unfolding bs
    by (rule length_concat_const) (rule len[OF _ ok])
qed

lemma section_read:
  assumes p: "pack_all (map f xs) = Inr bs"
    and rd: "\<And>x b off rest. x \<in> set xs \<Longrightarrow> f x = Inr b \<Longrightarrow> drop off buf = b @ rest
        \<Longrightarrow> rd buf off = Inr (dec x)"
    and len: "\<And>x b. x \<in> set xs \<Longrightarrow> f x = Inr b \<Longrightarrow> length b = step"
    and d: "drop off buf = bs @ rest"
  shows "read_array rd step buf off (length xs) = Inr (map dec xs)"
proof -
  from pack_all_map_Inr[OF p] have ok: "\<And>x. x \<in> set xs \<Longrightarrow> f x = Inr (projr (f x))"
    and bs: "bs = concat (map (\<lambda>x. projr (f x)) xs)" by auto
  show "read_array rd step buf off (length xs) = Inr (map dec xs)"
  proof (rule read_array_decode[where enc = "\<lambda>x. projr (f x)" and rest = rest])
    show "drop off buf = concat (map (\<lambda>x. projr (f x)) xs) @ rest" using d bs by simp
  next
    fix x off rest assume "x \<in> set xs" "drop off buf = projr (f x) @ rest"
    from rd[OF this(1) ok[OF this(1)] this(2)] show "rd buf off = Inr (dec x)" .
  next
    fix x assume "x \<in> set xs"
    from len[OF this ok[OF this]] show "length (projr (f x)) = step" .
  qed
qed

text \<open>The section of the pieces.\<close>

lemma pieces_len:
  assumes "pack_all (map pack_piece ps) = Inr bs"
  shows "length bs = 2 * length ps"
  by (rule section_length[OF assms]) (simp add: pack_piece_def pack_pair_len del: pack_all.simps)

lemma pieces_read:
  assumes "pack_all (map pack_piece ps) = Inr bs" "drop off buf = bs @ rest"
  shows "read_array read_pair 2 buf off (length ps)
       = Inr (map (\<lambda>p. (nat (d_width p), nat (d_height p))) ps)"
proof (rule section_read[where f = pack_piece, OF assms(1) _ _ assms(2)])
  fix x b off rest assume "x \<in> set ps" "pack_piece x = Inr b" "drop off buf = b @ rest"
  thus "read_pair buf off = Inr (nat (d_width x), nat (d_height x))"
    using pack_pair_read[of "d_width x" "d_height x" b off buf rest] by (simp add: pack_piece_def del: pack_all.simps)
next
  fix x b assume "x \<in> set ps" "pack_piece x = Inr b"
  thus "length b = 2" by (simp add: pack_piece_def pack_pair_len del: pack_all.simps)
qed

text \<open>The section of the node fingerprints.\<close>

lemma id_bytes:
  assumes wf: "\<forall>node\<in>set ns. length (n_id node) = 32 \<and> set (n_id node) \<subseteq> set hex_digits"
    and x: "x \<in> set ns" and b: "fromhex (n_id x) = Inr b"
  shows "length b = 16" "concat (map byte_hex b) = n_id x"
proof -
  from wf x have "set (n_id x) \<subseteq> set hex_digits" "even (length (n_id x))" "length (n_id x) = 32"
    by auto
  from fromhex_lower[OF this(1,2)] b this(3) show "length b = 16" "concat (map byte_hex b) = n_id x"
    by auto
qed

lemma ids_len:
  assumes p: "pack_all (map (\<lambda>node. fromhex (n_id node)) ns) = Inr bs"
    and wf: "\<forall>node\<in>set ns. length (n_id node) = 32 \<and> set (n_id node) \<subseteq> set hex_digits"
  shows "length bs = 16 * length ns"
  by (rule section_length[OF p]) (rule id_bytes(1)[OF wf])

lemma ids_read:
  assumes p: "pack_all (map (\<lambda>node. fromhex (n_id node)) ns) = Inr bs"
    and wf: "\<forall>node\<in>set ns. length (n_id node) = 32 \<and> set (n_id node) \<subseteq> set hex_digits"
    and d: "drop off buf = bs @ rest"
  shows "read_array read_node_id 16 buf off (length ns) = Inr (map n_id ns)"
proof (rule section_read[where f = "\<lambda>node. fromhex (n_id node)", OF p _ _ d])
  fix x b off rest assume x: "x \<in> set ns" and b: "fromhex (n_id x) = Inr b"
    and dd: "drop off buf = b @ rest"
  from read_node_id_at[OF dd id_bytes(1)[OF wf x b]] id_bytes(2)[OF wf x b]
  show "read_node_id buf off = Inr (n_id x)" by simp
next
  fix x b assume "x \<in> set ns" "fromhex (n_id x) = Inr b"
  thus "length b = 16" by (rule id_bytes(1)[OF wf])
qed

text \<open>The section of the piece positions of the nodes.\<close>

lemma node_positions_len:
  assumes b: "pack_node_positions x = Inr b"
  shows "length b = 2 * length (n_positions x)"
proof (rule section_length[where f = "\<lambda>(px, py). pack_all [pack_u8 px, pack_u8 py]"])
  show "pack_all (map (\<lambda>(px, py). pack_all [pack_u8 px, pack_u8 py]) (n_positions x)) = Inr b"
    using b by (simp add: pack_node_positions_def)
next
  fix y c assume "y \<in> set (n_positions x)"
    and c: "(case y of (px, py) \<Rightarrow> pack_all [pack_u8 px, pack_u8 py]) = Inr c"
  obtain px py where y: "y = (px, py)" by (cases y)
  from c show "length c = 2" unfolding y by (simp add: pack_pair_len del: pack_all.simps)
qed

lemma node_positions_read:
  assumes b: "pack_node_positions x = Inr b" and d: "drop off buf = b @ rest"
  shows "read_array read_pair 2 buf off (length (n_positions x))
         = Inr (map (\<lambda>(px, py). (nat px, nat py)) (n_positions x))"
proof (rule section_read[where f = "\<lambda>(px, py). pack_all [pack_u8 px, pack_u8 py]", OF _ _ _ d])
  show "pack_all (map (\<lambda>(px, py). pack_all [pack_u8 px, pack_u8 py]) (n_positions x)) = Inr b"
    using b by (simp add: pack_node_positions_def)
next
  fix y c off rest assume "y \<in> set (n_positions x)"
    and c: "(case y of (px, py) \<Rightarrow> pack_all [pack_u8 px, pack_u8 py]) = Inr c"
    and dd: "drop off buf = c @ rest"
  obtain px py where y: "y = (px, py)" by (cases y)
  from c have "pack_all [pack_u8 px, pack_u8 py] = Inr c" unfolding y by (simp del: pack_all.simps)
  from pack_pair_read[OF this dd]
  show "read_pair buf off = Inr (case y of (px, py) \<Rightarrow> (nat px, nat py))" unfolding y by simp
next
  fix y c assume "y \<in> set (n_positions x)"
    and c: "(case y of (px, py) \<Rightarrow> pack_all [pack_u8 px, pack_u8 py]) = Inr c"
  obtain px py where y: "y = (px, py)" by (cases y)
  from c show "length c = 2" unfolding y by (simp add: pack_pair_len del: pack_all.simps)
qed

lemma positions_len:
  assumes p: "pack_all (map pack_node_positions ns) = Inr bs"
    and wf: "\<forall>node\<in>set ns. length (n_positions node) = pc"
  shows "length bs = 2 * pc * length ns"
  by (rule section_length[OF p]) (use wf node_positions_len in auto)

lemma positions_read:
  assumes p: "pack_all (map pack_node_positions ns) = Inr bs"
    and wf: "\<forall>node\<in>set ns. length (n_positions node) = pc"
    and d: "drop off buf = bs @ rest"
  shows "read_array (\<lambda>buffer offset. read_array read_pair 2 buffer offset pc) (2 * pc) buf off (length ns)
       = Inr (map (\<lambda>node. map (\<lambda>(px, py). (nat px, nat py)) (n_positions node)) ns)"
proof (rule section_read[where f = pack_node_positions, OF p _ _ d])
  fix x b off rest assume x: "x \<in> set ns" and b: "pack_node_positions x = Inr b"
    and dd: "drop off buf = b @ rest"
  from node_positions_read[OF b dd] wf x
  show "read_array read_pair 2 buf off pc = Inr (map (\<lambda>(px, py). (nat px, nat py)) (n_positions x))"
    by simp
next
  fix x b assume "x \<in> set ns" "pack_node_positions x = Inr b"
  with wf node_positions_len show "length b = 2 * pc" by auto
qed

lemma pack_xyz_bytes:
  assumes "- 32768 \<le> a" "a \<le> 32767" "- 32768 \<le> b" "b \<le> 32767" "- 32768 \<le> c" "c \<le> 32767"
  shows "pack_all [pack_i16 a, pack_i16 b, pack_i16 c]
      = Inr (le_bytes 2 (nat (a mod 65536)) @ le_bytes 2 (nat (b mod 65536)) @ le_bytes 2 (nat (c mod 65536)))"
  using assms by (simp add: pack_i16_def)

lemma quantized_range:
  assumes "quantized_xyz lookup node = (a, b, c)"
  shows "- 32768 \<le> a" "a \<le> 32767" "- 32768 \<le> b" "b \<le> 32767" "- 32768 \<le> c" "c \<le> 32767"
  using assms quantize_range by (auto simp: quantized_xyz_def split: option.splits)

lemma pack_node_xyz_eq:
  assumes "quantized_xyz lookup node = (a, b, c)"
  shows "pack_node_xyz lookup node
      = Inr (le_bytes 2 (nat (a mod 65536)) @ le_bytes 2 (nat (b mod 65536)) @ le_bytes 2 (nat (c mod 65536)))"
proof -
  note r = quantized_range[OF assms]
  have "pack_node_xyz lookup node = pack_all [pack_i16 a, pack_i16 b, pack_i16 c]"
    using assms by (auto simp: pack_node_xyz_def quantized_xyz_def split: option.splits simp del: pack_all.simps)
  thus ?thesis unfolding pack_xyz_bytes[OF r] .
qed

lemma xyz_len:
  assumes "pack_all (map (pack_node_xyz lookup) ns) = Inr bs"
  shows "length bs = 6 * length ns"
proof (rule section_length[OF assms])
  fix x b assume "pack_node_xyz lookup x = Inr b"
  obtain a b' c where q: "quantized_xyz lookup x = (a, b', c)" by (cases "quantized_xyz lookup x")
  from \<open>pack_node_xyz lookup x = Inr b\<close> show "length b = 6" unfolding pack_node_xyz_eq[OF q] by auto
qed

lemma xyz_section_read:
  assumes p: "pack_all (map (pack_node_xyz lookup) ns) = Inr bs" and d: "drop off buf = bs @ rest"
  shows "read_array (read_xyz 10) 6 buf off (length ns)
       = Inr (map (\<lambda>node. case quantized_xyz lookup node of
                      (a, b, c) \<Rightarrow> (Num (of_int a), Num (of_int b), Num (of_int c))) ns)"
proof (rule section_read[where f = "pack_node_xyz lookup", OF p _ _ d])
  fix x b off rest assume pb: "pack_node_xyz lookup x = Inr b" and dd: "drop off buf = b @ rest"
  obtain a b' c where q: "quantized_xyz lookup x = (a, b', c)" by (cases "quantized_xyz lookup x")
  from pb have b: "b = le_bytes 2 (nat (a mod 65536)) @ le_bytes 2 (nat (b' mod 65536)) @ le_bytes 2 (nat (c mod 65536))"
    unfolding pack_node_xyz_eq[OF q] by simp
  from dd have "drop off buf = le_bytes 2 (nat (a mod 65536)) @ le_bytes 2 (nat (b' mod 65536))
        @ le_bytes 2 (nat (c mod 65536)) @ rest" unfolding b by simp
  from xyz_read[OF this quantized_range[OF q]]
  show "read_xyz 10 buf off = Inr (case quantized_xyz lookup x of
                      (a, b, c) \<Rightarrow> (Num (of_int a), Num (of_int b), Num (of_int c)))"
    unfolding q by simp
next
  fix x b assume "pack_node_xyz lookup x = Inr b"
  obtain a b' c where q: "quantized_xyz lookup x = (a, b', c)" by (cases "quantized_xyz lookup x")
  from \<open>pack_node_xyz lookup x = Inr b\<close> show "length b = 6" unfolding pack_node_xyz_eq[OF q] by auto
qed

text \<open>The section of the edges.\<close>

lemma idx_fold:
  "fold (\<lambda>(idx, node) m. m(n_id node \<mapsto> idx)) (enumerate k ns) m0 s = Some i \<Longrightarrow>
     m0 s = Some i \<or> (k \<le> i \<and> i < k + length ns \<and> n_id (ns ! (i - k)) = s)"
proof (induction ns arbitrary: k m0)
  case Nil
  then show ?case by simp
next
  case (Cons a ns)
  from Cons.prems have "fold (\<lambda>(idx, node) m. m(n_id node \<mapsto> idx)) (enumerate (Suc k) ns)
       (m0(n_id a \<mapsto> k)) s = Some i" by (simp del: fun_upd_apply)
  from Cons.IH[OF this] show ?case
  proof
    assume "(m0(n_id a \<mapsto> k)) s = Some i"
    thus ?thesis by (auto split: if_splits)
  next
    assume "Suc k \<le> i \<and> i < Suc k + length ns \<and> n_id (ns ! (i - Suc k)) = s"
    thus ?thesis by (auto simp: nth_Cons' Suc_diff_Suc)
  qed
qed

lemma node_id_to_idx_Some:
  assumes "node_id_to_idx ns s = Some i"
  shows "i < length ns \<and> n_id (ns ! i) = s"
  using idx_fold[of 0 ns Map.empty s i] assms by (simp add: node_id_to_idx_def)

lemma js_index_ids:
  assumes "node_id_to_idx ns s = Some i"
  shows "js_index (map n_id ns) i = Some s"
  using node_id_to_idx_Some[OF assms] by (simp add: js_index_def)

lemma direction_roundtrip:
  assumes "d \<in> set directionMap"
  shows "0 \<le> direction_code d" "direction_code d \<le> 255"
    "(case js_index directionMap (nat (direction_code d)) of Some d \<Rightarrow> d | None \<Rightarrow> ''up'') = d"
  using assms by (auto simp: directionMap_def direction_code_def js_index_def)

lemma direction_code_range: "0 \<le> direction_code d \<and> direction_code d \<le> 3"
  by (simp add: direction_code_def)

lemma pack_edge_Inr:
  assumes "pack_edge idx e = Inr b"
  shows "\<exists>si ti. idx (e_source e) = Some si \<and> idx (e_target e) = Some ti
     \<and> si < 4294967296 \<and> ti < 4294967296 \<and> 0 \<le> e_piece_id e \<and> e_piece_id e \<le> 255
     \<and> b = le_bytes 4 si @ le_bytes 4 ti @ le_bytes 1 (nat (e_piece_id e))
           @ le_bytes 1 (nat (direction_code (e_direction e)))"
  using assms unfolding pack_edge_def
  by (auto split: option.splits simp: pack_all_Cons_Inr pack_all_Nil_Inr pack_u8_Inr pack_u32_Inr
      simp del: pack_all.simps)

lemma edge_read:
  assumes d: "drop off buf = le_bytes 4 si @ le_bytes 4 ti @ le_bytes 1 p @ le_bytes 1 c @ rest"
    and r: "si < 4294967296" "ti < 4294967296" "p < 256" "c < 256"
  shows "read_edge ids buf off = Inr \<lparr>pe_source = js_index ids si, pe_target = js_index ids ti,
          pe_piece_id = p,
          pe_direction = (case js_index directionMap c of Some d \<Rightarrow> d | None \<Rightarrow> ''up'')\<rparr>"
proof -
  from getUint_field[OF d] r(1) have 1: "getUint32 buf off = Inr si" by (simp add: getUint32_def)
  have d2: "drop (off + 4) buf = le_bytes 4 ti @ le_bytes 1 p @ le_bytes 1 c @ rest"
    by (rule drop_past_k[OF d]) simp_all
  from getUint_field[OF d2] r(2) have 2: "getUint32 buf (off + 4) = Inr ti" by (simp add: getUint32_def)
  have d3: "drop (off + 8) buf = le_bytes 1 p @ le_bytes 1 c @ rest"
    by (rule drop_past_k[OF d2]) simp_all
  from getUint_field[OF d3] r(3) have 3: "getUint8 buf (off + 8) = Inr p" by (simp add: getUint8_def)
  have d4: "drop (off + 9) buf = le_bytes 1 c @ rest"
    by (rule drop_past_k[OF d3]) simp_all
  from getUint_field[OF d4] r(4) have 4: "getUint8 buf (off + 9) = Inr c" by (simp add: getUint8_def)
  show ?thesis unfolding read_edge_def 1 2 3 4 by simp
qed

lemma edges_len:
  assumes "pack_all (map (pack_edge idx) es) = Inr bs"
  shows "length bs = 10 * length es"
proof (rule section_length[OF assms])
  fix x b assume "pack_edge idx x = Inr b"
  from pack_edge_Inr[OF this] show "length b = 10" by auto
qed

lemma edges_read:
  assumes p: "pack_all (map (pack_edge (node_id_to_idx ns)) es) = Inr bs"
    and wf: "\<forall>e\<in>set es. e_direction e \<in> set directionMap"
    and d: "drop off buf = bs @ rest"
  shows "read_array (read_edge (map n_id ns)) 10 buf off (length es) = Inr (map decoded_edge es)"
proof (rule section_read[where f = "pack_edge (node_id_to_idx ns)", OF p _ _ d])
  fix x b off rest assume x: "x \<in> set es" and pb: "pack_edge (node_id_to_idx ns) x = Inr b"
    and dd: "drop off buf = b @ rest"
  from pack_edge_Inr[OF pb] obtain si ti where s: "node_id_to_idx ns (e_source x) = Some si"
    "node_id_to_idx ns (e_target x) = Some ti" "si < 4294967296" "ti < 4294967296"
    "0 \<le> e_piece_id x" "e_piece_id x \<le> 255"
    and b: "b = le_bytes 4 si @ le_bytes 4 ti @ le_bytes 1 (nat (e_piece_id x))
           @ le_bytes 1 (nat (direction_code (e_direction x)))" by blast
  from wf x have dm: "e_direction x \<in> set directionMap" by simp
  from dd have d': "drop off buf = le_bytes 4 si @ le_bytes 4 ti @ le_bytes 1 (nat (e_piece_id x))
           @ le_bytes 1 (nat (direction_code (e_direction x))) @ rest" unfolding b by simp
  have "nat (e_piece_id x) < 256" "nat (direction_code (e_direction x)) < 256"
    using s(5,6) direction_code_range[of "e_direction x"] by auto
  from edge_read[OF d' s(3,4) this, of "map n_id ns"]
  show "read_edge (map n_id ns) buf off = Inr (decoded_edge x)"
    unfolding decoded_edge_def js_index_ids[OF s(1)] js_index_ids[OF s(2)]
      direction_roundtrip(3)[OF dm] .
next
  fix x b assume "pack_edge (node_id_to_idx ns) x = Inr b"
  from pack_edge_Inr[OF this] show "length b = 10" by auto
qed

lemma parse_of_reads:
  assumes "read_array getUint8 1 buf 0 4 = Inr (map unat MAGIC)"
    and "getUint16 buf 4 = Inr v" and "getUint32 buf 6 = Inr nn" and "getUint32 buf 10 = Inr ne"
    and "getUint16 buf 14 = Inr np" and "getUint8 buf 16 = Inr bw" and "getUint8 buf 17 = Inr bh"
    and "getUint16 buf 18 = Inr sc"
    and "read_array read_pair 2 buf 20 np = Inr ps"
    and "read_array read_node_id 16 buf (20 + 2 * np) nn = Inr ids"
    and "read_array (\<lambda>buffer offset. read_array read_pair 2 buffer offset np) (2 * np) buf
           (20 + 2 * np + 16 * nn) nn = Inr npos"
    and "read_array (read_xyz sc) 6 buf (20 + 2 * np + 16 * nn + 2 * np * nn) nn = Inr xyz"
    and "read_array (read_edge ids) 10 buf (20 + 2 * np + 16 * nn + 2 * np * nn + 6 * nn) ne = Inr es"
  shows "parsePackedGraph buf =
     Inr \<lparr>nodeCount = nn, edgeCount = ne, pieceCount = np,
          boardWidth = bw, boardHeight = bh,
          positionScaleRaw = sc, pg_pieces = ps,
          pg_nodes = map (\<lambda>(id, positions, x, y, z).
                            \<lparr>pn_id = id, pn_positions = positions, pn_x = x, pn_y = y, pn_z = z\<rparr>)
                         (zip ids (zip npos xyz)),
          pg_edges = es\<rparr>"
  unfolding parsePackedGraph_def assms bind_parse_simps Let_def by simp

lemma scale_raw: "\<lfloor>POSITION_SCALE * 10\<rfloor> = 10"
  by (simp add: POSITION_SCALE_def)

lemma pack_header_Inr:
  assumes "pack_header g = Inr hdr"
  shows "hdr = MAGIC @ le_bytes 2 1 @ le_bytes 4 (length (g_nodes g)) @ le_bytes 4 (length (g_edges g))
           @ le_bytes 2 (length (g_pieces g)) @ le_bytes 1 (nat (g_board_width g))
           @ le_bytes 1 (nat (g_board_height g)) @ le_bytes 2 10"
    and "length (g_nodes g) < 4294967296" and "length (g_edges g) < 4294967296"
    and "length (g_pieces g) < 65536"
    and "0 \<le> g_board_width g" and "g_board_width g \<le> 255"
    and "0 \<le> g_board_height g" and "g_board_height g \<le> 255"
  using assms unfolding pack_header_def scale_raw VERSION_def
    pack_all_Cons_Inr pack_all_Nil_Inr pack_u8_Inr pack_u16_Inr pack_u32_Inr
  by auto

lemma pack_graph_sections:
  assumes "pack_graph g tbl = Inr bytes"
  shows "\<exists>hdr P I NP X E. pack_header g = Inr hdr
     \<and> pack_all (map pack_piece (g_pieces g)) = Inr P
     \<and> pack_all (map (\<lambda>node. fromhex (n_id node)) (g_nodes g)) = Inr I
     \<and> pack_all (map pack_node_positions (g_nodes g)) = Inr NP
     \<and> pack_all (map (pack_node_xyz (pos_lookup tbl)) (g_nodes g)) = Inr X
     \<and> pack_all (map (pack_edge (node_id_to_idx (g_nodes g))) (g_edges g)) = Inr E
     \<and> bytes = hdr @ P @ I @ NP @ X @ E"
  using assms unfolding pack_graph_def Let_def pack_all_Cons_Inr pack_all_Nil_Inr
  by auto

lemma zip3_map:
  "map (\<lambda>(id, positions, x, y, z).
          \<lparr>pn_id = id, pn_positions = positions, pn_x = x, pn_y = y, pn_z = z\<rparr>)
     (zip (map n_id ns)
        (zip (map (\<lambda>node. map (\<lambda>(px, py). (nat px, nat py)) (n_positions node)) ns)
             (map (\<lambda>node. case quantized_xyz lookup node of
                      (a, b, c) \<Rightarrow> (Num (of_int a), Num (of_int b), Num (of_int c))) ns)))
   = map (decoded_node lookup) ns"
  by (induction ns) (auto simp: decoded_node_def split: prod.splits)

lemma roundtrip:
  assumes wf: "well_formed_graph g" and pk: "pack_graph g tbl = Inr bytes"
  shows "parsePackedGraph bytes =
     Inr \<lparr>nodeCount = length (g_nodes g), edgeCount = length (g_edges g),
          pieceCount = length (g_pieces g),
          boardWidth = nat (g_board_width g), boardHeight = nat (g_board_height g),
          positionScaleRaw = 10,
          pg_pieces = map (\<lambda>p. (nat (d_width p), nat (d_height p))) (g_pieces g),
          pg_nodes = map (decoded_node (pos_lookup tbl)) (g_nodes g),
          pg_edges = map decoded_edge (g_edges g)\<rparr>"
proof -
  let ?nn = "length (g_nodes g)" and ?ne = "length (g_edges g)" and ?np = "length (g_pieces g)"
  from pack_graph_sections[OF pk] obtain hdr P I NP X E where
    ph: "pack_header g = Inr hdr"
    and pP: "pack_all (map pack_piece (g_pieces g)) = Inr P"
    and pI: "pack_all (map (\<lambda>node. fromhex (n_id node)) (g_nodes g)) = Inr I"
    and pNP: "pack_all (map pack_node_positions (g_nodes g)) = Inr NP"
    and pX: "pack_all (map (pack_node_xyz (pos_lookup tbl)) (g_nodes g)) = Inr X"
    and pE: "pack_all (map (pack_edge (node_id_to_idx (g_nodes g))) (g_edges g)) = Inr E"
    and bytes: "bytes = hdr @ P @ I @ NP @ X @ E" by blast
  note h = pack_header_Inr[OF ph]
  from wf have wid: "\<forall>node\<in>set (g_nodes g). length (n_id node) = 32 \<and> set (n_id node) \<subseteq> set hex_digits"
    and wpos: "\<forall>node\<in>set (g_nodes g). length (n_positions node) = ?np"
    and wdir: "\<forall>e\<in>set (g_edges g). e_direction e \<in> set directionMap"
    by (auto simp: well_formed_graph_def)
  let ?S = "P @ I @ NP @ X @ E"
  have d0: "drop 0 bytes = MAGIC @ le_bytes 2 1 @ le_bytes 4 ?nn @ le_bytes 4 ?ne
           @ le_bytes 2 ?np @ le_bytes 1 (nat (g_board_width g))
           @ le_bytes 1 (nat (g_board_height g)) @ le_bytes 2 10 @ ?S"
    unfolding bytes h(1) by simp
  have lenM: "length MAGIC = 4" by (simp add: MAGIC_def)
  have d4: "drop 4 bytes = le_bytes 2 1 @ le_bytes 4 ?nn @ le_bytes 4 ?ne
           @ le_bytes 2 ?np @ le_bytes 1 (nat (g_board_width g))
           @ le_bytes 1 (nat (g_board_height g)) @ le_bytes 2 10 @ ?S"
    by (rule drop_past_k[OF d0 lenM]) simp
  have d6: "drop 6 bytes = le_bytes 4 ?nn @ le_bytes 4 ?ne
           @ le_bytes 2 ?np @ le_bytes 1 (nat (g_board_width g))
           @ le_bytes 1 (nat (g_board_height g)) @ le_bytes 2 10 @ ?S"
    by (rule drop_past_k[OF d4]) simp_all
  have d10: "drop 10 bytes = le_bytes 4 ?ne
           @ le_bytes 2 ?np @ le_bytes 1 (nat (g_board_width g))
           @ le_bytes 1 (nat (g_board_height g)) @ le_bytes 2 10 @ ?S"
    by (rule drop_past_k[OF d6]) simp_all
  have d14: "drop 14 bytes = le_bytes 2 ?np @ le_bytes 1 (nat (g_board_width g))
           @ le_bytes 1 (nat (g_board_height g)) @ le_bytes 2 10 @ ?S"
    by (rule drop_past_k[OF d10]) simp_all
  have d16: "drop 16 bytes = le_bytes 1 (nat (g_board_width g))
           @ le_bytes 1 (nat (g_board_height g)) @ le_bytes 2 10 @ ?S"
    by (rule drop_past_k[OF d14]) simp_all
  have d17: "drop 17 bytes = le_bytes 1 (nat (g_board_height g)) @ le_bytes 2 10 @ ?S"
    by (rule drop_past_k[OF d16]) simp_all
  have d18: "drop 18 bytes = le_bytes 2 10 @ ?S"
    by (rule drop_past_k[OF d17]) simp_all
  have d20: "drop 20 bytes = P @ I @ NP @ X @ E"
    by (rule drop_past_k[OF d18]) simp_all
  have lP: "length P = 2 * ?np" by (rule pieces_len[OF pP])
  have lI: "length I = 16 * ?nn" by (rule ids_len[OF pI wid])
  have lNP: "length NP = 2 * ?np * ?nn" by (rule positions_len[OF pNP wpos])
  have lX: "length X = 6 * ?nn" by (rule xyz_len[OF pX])
  have dI: "drop (20 + 2 * ?np) bytes = I @ NP @ X @ E"
    by (rule drop_past_k[OF d20 lP]) simp
  have dNP: "drop (20 + 2 * ?np + 16 * ?nn) bytes = NP @ X @ E"
    by (rule drop_past_k[OF dI lI]) simp
  have dX: "drop (20 + 2 * ?np + 16 * ?nn + 2 * ?np * ?nn) bytes = X @ E"
    by (rule drop_past_k[OF dNP lNP]) simp
  have "drop (20 + 2 * ?np + 16 * ?nn + 2 * ?np * ?nn + 6 * ?nn) bytes = E"
    by (rule drop_past_k[OF dX lX]) simp
  hence dE: "drop (20 + 2 * ?np + 16 * ?nn + 2 * ?np * ?nn + 6 * ?nn) bytes = E @ []" by simp
  have l20: "4 \<le> length bytes" unfolding bytes h(1) by (simp add: MAGIC_def)
  have t4: "take 4 bytes = MAGIC" unfolding bytes h(1) by (simp add: MAGIC_def)
  have r0: "read_array getUint8 1 bytes 0 4 = Inr (map unat MAGIC)"
    using read_magic[OF l20] t4 by simp
  have r1: "getUint16 bytes 4 = Inr 1"
    unfolding getUint16_def by (rule getUint_field[OF d4]) simp_all
  have r2: "getUint32 bytes 6 = Inr ?nn"
    unfolding getUint32_def by (rule getUint_field[OF d6]) (use h(2) in simp_all)
  have r3: "getUint32 bytes 10 = Inr ?ne"
    unfolding getUint32_def by (rule getUint_field[OF d10]) (use h(3) in simp_all)
  have r4: "getUint16 bytes 14 = Inr ?np"
    unfolding getUint16_def by (rule getUint_field[OF d14]) (use h(4) in simp_all)
  have r5: "getUint8 bytes 16 = Inr (nat (g_board_width g))"
    unfolding getUint8_def by (rule getUint_field[OF d16]) (use h(5,6) in simp_all)
  have r6: "getUint8 bytes 17 = Inr (nat (g_board_height g))"
    unfolding getUint8_def by (rule getUint_field[OF d17]) (use h(7,8) in simp_all)
  have r7: "getUint16 bytes 18 = Inr 10"
    unfolding getUint16_def by (rule getUint_field[OF d18]) simp_all
  note s1 = pieces_read[OF pP d20]
  note s2 = ids_read[OF pI wid dI]
  note s3 = positions_read[OF pNP wpos dNP]
  note s4 = xyz_section_read[OF pX dX]
  note s5 = edges_read[OF pE wdir dE]
  show ?thesis
    unfolding parse_of_reads[OF r0 r1 r2 r3 r4 r5 r6 r7 s1 s2 s3 s4 s5] zip3_map ..
qed

text \<open>Quantization: rounding to the nearest integer, then the clamp to the signed 16 bit range.\<close>

lemma round_half_even_bounds:
  "of_int (round_half_even r) - r \<le> 1 / 2" "r - of_int (round_half_even r) \<le> 1 / 2"
  "\<lfloor>r\<rfloor> \<le> round_half_even r" "round_half_even r \<le> \<lceil>r\<rceil>"
proof -
  let ?f = "\<lfloor>r\<rfloor>" and ?d = "r - of_int \<lfloor>r\<rfloor>"
  have d: "0 \<le> ?d" "?d < 1" by linarith+
  show "of_int (round_half_even r) - r \<le> 1 / 2"
    unfolding round_half_even_def Let_def by (simp split: if_splits) linarith
  show "r - of_int (round_half_even r) \<le> 1 / 2"
    unfolding round_half_even_def Let_def by (simp split: if_splits) linarith
  show "\<lfloor>r\<rfloor> \<le> round_half_even r" by (auto simp: round_half_even_def Let_def)
  show "round_half_even r \<le> \<lceil>r\<rceil>"
  proof (cases "?d = 0")
    case True
    thus ?thesis by (simp add: round_half_even_def Let_def)
  next
    case False
    moreover have "of_int ?f \<le> r" by simp
    ultimately have "of_int ?f < r" by linarith
    moreover have "r \<le> of_int \<lceil>r\<rceil>" by simp
    ultimately have "(of_int ?f :: rat) < of_int \<lceil>r\<rceil>" by (rule less_le_trans)
    hence "?f + 1 \<le> \<lceil>r\<rceil>" by simp
    thus ?thesis by (auto simp: round_half_even_def Let_def)
  qed
qed

lemma quantize_in_range:
  assumes "- 32768 \<le> v" "v \<le> 32767"
  shows "quantize_position v = round_half_even v" "\<bar>of_int (quantize_position v) - v\<bar> \<le> 1 / 2"
proof -
  from assms have "- 32768 \<le> \<lfloor>v\<rfloor>" "\<lceil>v\<rceil> \<le> 32767"
    by (simp_all add: le_floor_iff ceiling_le_iff)
  with round_half_even_bounds(3,4)[of v]
  have "- 32768 \<le> round_half_even v" "round_half_even v \<le> 32767" by linarith+
  thus q: "quantize_position v = round_half_even v"
    by (simp add: quantize_position_def POSITION_SCALE_def)
  from round_half_even_bounds(1,2)[of v] show "\<bar>of_int (quantize_position v) - v\<bar> \<le> 1 / 2"
    unfolding q by linarith
qed

lemma quantize_clamped:
  "32767 \<le> v \<Longrightarrow> quantize_position v = 32767"
  "v \<le> - 32768 \<Longrightarrow> quantize_position v = - 32768"
proof -
  assume "32767 \<le> v"
  hence "32767 \<le> \<lfloor>v\<rfloor>" by (simp add: le_floor_iff)
  with round_half_even_bounds(3)[of v] have "32767 \<le> round_half_even v" by linarith
  thus "quantize_position v = 32767" by (simp add: quantize_position_def POSITION_SCALE_def)
next
  assume "v \<le> - 32768"
  hence "\<lceil>v\<rceil> \<le> - 32768" by (simp add: ceiling_le_iff)
  with round_half_even_bounds(4)[of v] have "round_half_even v \<le> - 32768" by linarith
  thus "quantize_position v = - 32768" by (simp add: quantize_position_def POSITION_SCALE_def)
qed

text \<open>What a successful \<^verbatim>\<open>struct.pack\<close> says about the packed values.\<close>

lemma pieces_ranges:
  assumes "pack_all (map pack_piece ps) = Inr bs" "p \<in> set ps"
  shows "0 \<le> d_width p \<and> 0 \<le> d_height p"
proof -
  from pack_all_map_Inr[OF assms(1)] assms(2) have "pack_piece p = Inr (projr (pack_piece p))" by blast
  from pack_pair_Inr[OF this[unfolded pack_piece_def]] show ?thesis by simp
qed

lemma positions_ranges:
  assumes "pack_all (map pack_node_positions ns) = Inr bs" "node \<in> set ns" "(px, py) \<in> set (n_positions node)"
  shows "0 \<le> px \<and> 0 \<le> py"
proof -
  from pack_all_map_Inr[OF assms(1)] assms(2)
  have "pack_node_positions node = Inr (projr (pack_node_positions node))" by blast
  from pack_all_map_Inr[OF this[unfolded pack_node_positions_def]] assms(3)
  have "pack_all [pack_u8 px, pack_u8 py] = Inr (projr (pack_all [pack_u8 px, pack_u8 py]))"
    by (auto simp del: pack_all.simps)
  from pack_pair_Inr[OF this] show ?thesis by simp
qed

lemma edges_ranges:
  assumes "pack_all (map (pack_edge idx) es) = Inr bs" "e \<in> set es"
  shows "0 \<le> e_piece_id e"
proof -
  from pack_all_map_Inr[OF assms(1)] assms(2) have "pack_edge idx e = Inr (projr (pack_edge idx e))" by blast
  from pack_edge_Inr[OF this] show ?thesis by blast
qed

lemma corridor_run:
  "(case compute_state_space corridor_md5 (KlotskiSolver corridor) of
      Some (Inr (sv, g)) \<Rightarrow> g = corridor_graph | _ \<Rightarrow> False)"
  by code_simp

lemma idx_fold_dom:
  "dom (fold (\<lambda>(idx, node) m. m(n_id node \<mapsto> idx)) (enumerate k ns) m0) = dom m0 \<union> n_id ` set ns"
  by (induction ns arbitrary: k m0) auto

lemma node_id_to_idx_dom: "dom (node_id_to_idx ns) = n_id ` set ns"
  by (simp add: node_id_to_idx_def idx_fold_dom)

lemma pack_all_Inrs:
  "pack_all [Inr a, Inr b, Inr c, Inr d, Inr e, Inr f] = Inr (a @ b @ c @ d @ e @ f)"
  by simp

lemma pack_graph_succeeds:
  assumes n: "length (g_nodes g) < 4294967296" "length (g_edges g) < 4294967296"
      "length (g_pieces g) < 65536"
    and b: "0 \<le> g_board_width g" "g_board_width g \<le> 255" "0 \<le> g_board_height g" "g_board_height g \<le> 255"
    and p: "\<forall>p\<in>set (g_pieces g). 0 \<le> d_width p \<and> d_width p \<le> 255 \<and> 0 \<le> d_height p \<and> d_height p \<le> 255"
    and i: "\<forall>node\<in>set (g_nodes g). set (n_id node) \<subseteq> set hex_digits \<and> even (length (n_id node))"
    and q: "\<forall>node\<in>set (g_nodes g). \<forall>(px, py)\<in>set (n_positions node).
              0 \<le> px \<and> px \<le> 255 \<and> 0 \<le> py \<and> py \<le> 255"
    and e: "\<forall>e\<in>set (g_edges g). e_source e \<in> n_id ` set (g_nodes g) \<and> e_target e \<in> n_id ` set (g_nodes g)
              \<and> 0 \<le> e_piece_id e \<and> e_piece_id e \<le> 255"
  shows "\<exists>bytes. pack_graph g tbl = Inr bytes"
proof -
  have h: "\<exists>hdr. pack_header g = Inr hdr"
    using n b by (simp add: pack_header_def scale_raw VERSION_def pack_u16_def pack_u32_def pack_u8_def)
  have pp: "\<forall>x\<in>set (g_pieces g). pack_piece x = Inr (le_bytes 1 (nat (d_width x)) @ le_bytes 1 (nat (d_height x)))"
    using p by (simp add: pack_piece_def pack_u8_def)
  have pi: "\<forall>x\<in>set (g_nodes g). fromhex (n_id x) = Inr (projr (fromhex (n_id x)))"
  proof
    fix x assume "x \<in> set (g_nodes g)"
    with i have "set (n_id x) \<subseteq> set hex_digits" "even (length (n_id x))" by auto
    from fromhex_lower[OF this] obtain bs where "fromhex (n_id x) = Inr bs" by blast
    thus "fromhex (n_id x) = Inr (projr (fromhex (n_id x)))" by simp
  qed
  have pq: "\<forall>x\<in>set (g_nodes g). pack_node_positions x
       = Inr (concat (map (\<lambda>(px, py). le_bytes 1 (nat px) @ le_bytes 1 (nat py)) (n_positions x)))"
  proof
    fix x assume x: "x \<in> set (g_nodes g)"
    have "\<forall>y\<in>set (n_positions x). (case y of (px, py) \<Rightarrow> pack_all [pack_u8 px, pack_u8 py])
        = Inr (case y of (px, py) \<Rightarrow> le_bytes 1 (nat px) @ le_bytes 1 (nat py))"
    proof
      fix y assume y: "y \<in> set (n_positions x)"
      obtain px py where p: "y = (px, py)" by (cases y)
      from q x y p have "0 \<le> px \<and> px \<le> 255 \<and> 0 \<le> py \<and> py \<le> 255" by fastforce
      thus "(case y of (px, py) \<Rightarrow> pack_all [pack_u8 px, pack_u8 py])
        = Inr (case y of (px, py) \<Rightarrow> le_bytes 1 (nat px) @ le_bytes 1 (nat py))"
        by (simp add: p pack_u8_def)
    qed
    from pack_all_map_ok[OF this] show "pack_node_positions x
       = Inr (concat (map (\<lambda>(px, py). le_bytes 1 (nat px) @ le_bytes 1 (nat py)) (n_positions x)))"
      by (simp add: pack_node_positions_def)
  qed
  have px: "\<forall>x\<in>set (g_nodes g). pack_node_xyz (pos_lookup tbl) x
       = Inr (projr (pack_node_xyz (pos_lookup tbl) x))"
  proof
    fix x
    obtain a b' c where "quantized_xyz (pos_lookup tbl) x = (a, b', c)"
      by (cases "quantized_xyz (pos_lookup tbl) x")
    from pack_node_xyz_eq[OF this]
    show "pack_node_xyz (pos_lookup tbl) x = Inr (projr (pack_node_xyz (pos_lookup tbl) x))" by simp
  qed
  have pe: "\<forall>x\<in>set (g_edges g). pack_edge (node_id_to_idx (g_nodes g)) x
       = Inr (projr (pack_edge (node_id_to_idx (g_nodes g)) x))"
  proof
    fix x assume x: "x \<in> set (g_edges g)"
    with e have "e_source x \<in> dom (node_id_to_idx (g_nodes g))" "e_target x \<in> dom (node_id_to_idx (g_nodes g))"
      and r: "0 \<le> e_piece_id x" "e_piece_id x \<le> 255"
      unfolding node_id_to_idx_dom by auto
    then obtain si ti where s: "node_id_to_idx (g_nodes g) (e_source x) = Some si"
      "node_id_to_idx (g_nodes g) (e_target x) = Some ti" by auto
    from node_id_to_idx_Some[OF s(1)] node_id_to_idx_Some[OF s(2)] n(1)
    have "si < 4294967296" "ti < 4294967296" by auto
    with s r direction_code_range[of "e_direction x"]
    show "pack_edge (node_id_to_idx (g_nodes g)) x
       = Inr (projr (pack_edge (node_id_to_idx (g_nodes g)) x))"
      by (simp add: pack_edge_def pack_u32_def pack_u8_def)
  qed
  from h obtain hdr where hdr: "pack_header g = Inr hdr" ..
  show ?thesis
    unfolding pack_graph_def Let_def hdr pack_all_map_ok[OF pp] pack_all_map_ok[OF pi]
      pack_all_map_ok[OF pq] pack_all_map_ok[OF px] pack_all_map_ok[OF pe] pack_all_Inrs
    by blast
qed

lemma corridor_packs: "\<exists>bytes. pack_graph corridor_graph far_positions = Inr bytes"
  by (rule pack_graph_succeeds) (simp_all add: corridor_graph_def hex_digits_def)

lemma corridor_well_formed: "well_formed_graph corridor_graph"
  by (simp add: well_formed_graph_def corridor_graph_def hex_digits_def directionMap_def)

lemma corridor_lookup:
  "pos_lookup far_positions ''25f4e77213bca1f0180a975bc4cb53db'' = Some (5 / 2, - 7 / 2, 40000)"
  "pos_lookup far_positions ''5000c709bc3002ab02087e4655306adb'' = None"
  by (simp_all add: pos_lookup_def far_positions_def)

lemma move_shape:
  assumes "m \<in> set (get_possible_moves s)"
  shows "length (pieces (fst m)) = length (pieces s)" and "snd (snd m) \<in> set directionMap"
proof -
  obtain s' i d where m: "m = (s', i, d)" by (cases m)
  from assms[unfolded m in_moves_iff] obtain j nx ny dx dy where
    "(dx, dy, d) \<in> set directions" "s' = move_pieces s j nx ny"
    by blast
  thus "length (pieces (fst m)) = length (pieces s)" and "snd (snd m) \<in> set directionMap"
    unfolding m by (auto simp: move_pieces_def directions_def directionMap_def)
qed

lemma set_update_subset: "set (AList.update k v al) \<subseteq> insert (k, v) (set al)"
  by (induction al) auto

lemma loop_body_shape:
  assumes inv: "shape_inv H n sv" and ne: "queue sv \<noteq> []"
  shows "\<exists>sv'. loop_body H sv = Inr sv' \<and> shape_inv H n sv'"
proof -
  from ne obtain c rest where q: "queue sv = c # rest" by (cases "queue sv") auto
  let ?h = "to_hash H c"
  let ?sv1 = "sv\<lparr>queue := rest, queued_states := queued_states sv - {?h}\<rparr>"
  let ?ms = "get_possible_moves c"
  let ?sv2 = "fold (record_move H ?h) ?ms ?sv1"
  let ?sv3 = "?sv2\<lparr>visited_states := AList.update ?h c (visited_states ?sv2)\<rparr>"
  from inv have i1: "length (pieces (initial_state sv)) = n"
    and i2: "queued_states sv = to_hash H ` set (queue sv)"
    and i3: "distinct (map (to_hash H) (queue sv))"
    and i4: "\<forall>s\<in>set (queue sv). length (pieces s) = n"
    and i5: "\<forall>(h, s)\<in>set (visited_states sv). h \<in> range H \<and> length (pieces s) = n"
    and i6: "\<forall>e\<in>set (edges sv). e_direction e \<in> set directionMap"
    unfolding shape_inv_def by blast+
  from i2 q have hin: "?h \<in> queued_states sv" by simp
  hence lb: "loop_body H sv = Inr ?sv3" by (simp add: loop_body_def q Let_def)
  from i3 q have "?h \<notin> to_hash H ` set rest" and d1: "distinct (map (to_hash H) rest)" by auto
  with i2 q have a1: "queued_states ?sv1 = to_hash H ` set (queue ?sv1)" by auto
  from d1 have a2: "distinct (map (to_hash H) (queue ?sv1))" by simp
  from fold_record_move_queue[OF a1 a2, of ?h ?ms] obtain new where
    n1: "queue ?sv2 = rest @ new" and n2: "set new \<subseteq> fst ` set ?ms"
    and n4: "queued_states ?sv2 = to_hash H ` set (rest @ new)"
    and n5: "distinct (map (to_hash H) (rest @ new))"
    by auto
  from i4 q have cn: "length (pieces c) = n" by simp
  have j1: "length (pieces (initial_state ?sv3)) = n"
    using i1 by (simp add: fold_record_move_const)
  have j2: "queued_states ?sv3 = to_hash H ` set (queue ?sv3)" using n4 n1 by simp
  have j3: "distinct (map (to_hash H) (queue ?sv3))" using n5 n1 by simp
  have j4: "\<forall>s\<in>set (queue ?sv3). length (pieces s) = n"
  proof
    fix s assume "s \<in> set (queue ?sv3)"
    hence "s \<in> set rest \<or> s \<in> set new" by (simp add: n1)
    thus "length (pieces s) = n"
    proof
      assume "s \<in> set rest" with i4 q show ?thesis by simp
    next
      assume "s \<in> set new"
      with n2 obtain m where "m \<in> set ?ms" "s = fst m" by auto
      with move_shape(1)[of m c] cn show ?thesis by simp
    qed
  qed
  have j5: "\<forall>(h, s)\<in>set (visited_states ?sv3). h \<in> range H \<and> length (pieces s) = n"
  proof -
    have "set (visited_states ?sv3) \<subseteq> insert (?h, c) (set (visited_states sv))"
      using set_update_subset[of ?h c "visited_states sv"] by (simp add: fold_record_move_const)
    moreover have "?h \<in> range H" by (simp add: to_hash_def)
    ultimately show ?thesis using i5 cn by auto
  qed
  have j6: "\<forall>e\<in>set (edges ?sv3). e_direction e \<in> set directionMap"
  proof
    fix e assume "e \<in> set (edges ?sv3)"
    hence "e \<in> set (edges sv) \<or> e \<in> edge_of H ?h ` set ?ms" by (auto simp: fold_record_move_edges)
    thus "e_direction e \<in> set directionMap"
    proof
      assume "e \<in> set (edges sv)" with i6 show ?thesis by simp
    next
      assume "e \<in> edge_of H ?h ` set ?ms"
      then obtain m where "m \<in> set ?ms" "e = edge_of H ?h m" by auto
      with move_shape(2)[of m c] show ?thesis by (simp add: edge_of_simps)
    qed
  qed
  have "shape_inv H n ?sv3" unfolding shape_inv_def by (intro conjI j1 j2 j3 j4 j5 j6)
  with lb show ?thesis by blast
qed

lemma finished_graph_well_formed:
  assumes run: "compute_state_space H (KlotskiSolver init) = Some (Inr (sv, g))"
    and hex: "\<forall>t. length (H t) = 32 \<and> set (H t) \<subseteq> set hex_digits"
  shows "well_formed_graph g"
proof -
  let ?n = "length (pieces init)"
  from run obtain r0 where r0: "explore H \<lparr>initial_state = init, visited_states = [], edges = [],
      queue = [init], queued_states = {to_hash H init}\<rparr> = Some r0"
    by (auto simp: compute_state_space_def KlotskiSolver_def split: option.splits)
  have st: "shape_inv H ?n \<lparr>initial_state = init, visited_states = [], edges = [],
      queue = [init], queued_states = {to_hash H init}\<rparr>"
    by (simp add: shape_inv_def)
  from explore_total_correct[where I = "shape_inv H ?n", OF r0 loop_body_shape st]
  obtain sv' where s: "r0 = Inr sv'" "shape_inv H ?n sv'" by blast
  with run r0 have g: "g = create_graph_json sv'"
    by (auto simp: compute_state_space_def KlotskiSolver_def)
  from s(2) have i1: "length (pieces (initial_state sv')) = ?n"
    and i5: "\<forall>(h, s)\<in>set (visited_states sv'). h \<in> range H \<and> length (pieces s) = ?n"
    and i6: "\<forall>e\<in>set (edges sv'). e_direction e \<in> set directionMap"
    unfolding shape_inv_def by blast+
  have np: "length (g_pieces g) = ?n" using i1 by (simp add: g create_graph_json_def Let_def)
  have "\<forall>node\<in>set (g_nodes g). length (n_id node) = 32 \<and> set (n_id node) \<subseteq> set hex_digits
         \<and> length (n_positions node) = length (g_pieces g)"
  proof
    fix node assume "node \<in> set (g_nodes g)"
    then obtain h s where hs: "(h, s) \<in> set (visited_states sv')"
      and nd: "node = \<lparr>n_id = h, n_positions = to_position_array s\<rparr>"
      by (auto simp: g create_graph_json_def Let_def)
    from i5 hs have "h \<in> range H" "length (pieces s) = ?n" by auto
    with hex show "length (n_id node) = 32 \<and> set (n_id node) \<subseteq> set hex_digits
         \<and> length (n_positions node) = length (g_pieces g)"
      unfolding nd np by (auto simp: to_position_array_def)
  qed
  moreover have "\<forall>e\<in>set (g_edges g). e_direction e \<in> set directionMap"
    using i6 by (simp add: g graph_of_solver(2))
  ultimately show ?thesis unfolding well_formed_graph_def by (rule conjI)
qed

lemma roundtrip_fields:
  assumes wf: "well_formed_graph g" and pk: "pack_graph g positions = Inr bytes"
  shows "\<exists>d. parsePackedGraph bytes = Inr d
     \<and> map pn_id (pg_nodes d) = map n_id (g_nodes g)
     \<and> map (\<lambda>(w, h). (int w, int h)) (pg_pieces d) = map (\<lambda>p. (d_width p, d_height p)) (g_pieces g)
     \<and> int (boardWidth d) = g_board_width g \<and> int (boardHeight d) = g_board_height g
     \<and> map (\<lambda>e. (pe_source e, pe_target e, int (pe_piece_id e), pe_direction e)) (pg_edges d)
        = map (\<lambda>e. (Some (e_source e), Some (e_target e), e_piece_id e, e_direction e)) (g_edges g)
     \<and> map (\<lambda>n. map (\<lambda>(px, py). (int px, int py)) (pn_positions n)) (pg_nodes d)
        = map n_positions (g_nodes g)
     \<and> map (\<lambda>n. (pn_x n, pn_y n, pn_z n)) (pg_nodes d)
        = map (\<lambda>node. case pos_lookup positions (n_id node) of
                  None \<Rightarrow> (Num 0, Num 0, Num 0)
                | Some (x, y, z) \<Rightarrow> (Num (of_int (quantize_position x)),
                                    Num (of_int (quantize_position y)),
                                    Num (of_int (quantize_position z)))) (g_nodes g)"
proof -
  let ?d = "\<lparr>nodeCount = length (g_nodes g), edgeCount = length (g_edges g),
                 pieceCount = length (g_pieces g),
                 boardWidth = nat (g_board_width g), boardHeight = nat (g_board_height g),
                 positionScaleRaw = 10,
                 pg_pieces = map (\<lambda>p. (nat (d_width p), nat (d_height p))) (g_pieces g),
                 pg_nodes = map (decoded_node (pos_lookup positions)) (g_nodes g),
                 pg_edges = map decoded_edge (g_edges g)\<rparr>"
  from pack_graph_sections[OF pk] obtain hdr P I NP X E where
    h: "pack_header g = Inr hdr"
    and p: "pack_all (map pack_piece (g_pieces g)) = Inr P"
    and np: "pack_all (map pack_node_positions (g_nodes g)) = Inr NP"
    and e: "pack_all (map (pack_edge (node_id_to_idx (g_nodes g))) (g_edges g)) = Inr E"
    by blast
  have c0: "parsePackedGraph bytes = Inr ?d" by (rule roundtrip[OF wf pk])
  have c1: "map pn_id (pg_nodes ?d) = map n_id (g_nodes g)"
    by (simp add: decoded_node_def comp_def split: prod.splits)
  have c2: "map (\<lambda>(w, h). (int w, int h)) (pg_pieces ?d) = map (\<lambda>p. (d_width p, d_height p)) (g_pieces g)"
    using pieces_ranges[OF p] by simp
  have c3: "int (boardWidth ?d) = g_board_width g" "int (boardHeight ?d) = g_board_height g"
    using pack_header_Inr(5,7)[OF h] by simp_all
  have c4: "map (\<lambda>e. (pe_source e, pe_target e, int (pe_piece_id e), pe_direction e)) (pg_edges ?d)
        = map (\<lambda>e. (Some (e_source e), Some (e_target e), e_piece_id e, e_direction e)) (g_edges g)"
    using edges_ranges[OF e] by (simp add: decoded_edge_def)
  have c5: "map (\<lambda>n. map (\<lambda>(px, py). (int px, int py)) (pn_positions n)) (pg_nodes ?d)
        = map n_positions (g_nodes g)"
  proof -
    have "\<And>node. node \<in> set (g_nodes g) \<Longrightarrow>
        map (\<lambda>(px, py). (int px, int py)) (pn_positions (decoded_node (pos_lookup positions) node))
        = n_positions node"
    proof -
      fix node assume n: "node \<in> set (g_nodes g)"
      have "map (\<lambda>(px, py). (int px, int py)) (map (\<lambda>(px, py). (nat px, nat py)) (n_positions node))
          = n_positions node"
      proof -
        have "\<And>y. y \<in> set (n_positions node) \<Longrightarrow>
            ((\<lambda>(px, py). (int px, int py)) \<circ> (\<lambda>(px, py). (nat px, nat py))) y = y"
        proof -
          fix y assume y: "y \<in> set (n_positions node)"
          obtain px py where p: "y = (px, py)" by (cases y)
          from positions_ranges[OF np n y[unfolded p]] show
            "((\<lambda>(px, py). (int px, int py)) \<circ> (\<lambda>(px, py). (nat px, nat py))) y = y"
            by (simp add: p)
        qed
        thus ?thesis by (simp add: map_idI)
      qed
      thus "map (\<lambda>(px, py). (int px, int py)) (pn_positions (decoded_node (pos_lookup positions) node))
        = n_positions node"
        by (simp add: decoded_node_def split: prod.splits)
    qed
    thus ?thesis by (simp add: map_idI)
  qed
  have c6: "map (\<lambda>n. (pn_x n, pn_y n, pn_z n)) (pg_nodes ?d)
        = map (\<lambda>node. case pos_lookup positions (n_id node) of
                  None \<Rightarrow> (Num 0, Num 0, Num 0)
                | Some (x, y, z) \<Rightarrow> (Num (of_int (quantize_position x)),
                                    Num (of_int (quantize_position y)),
                                    Num (of_int (quantize_position z)))) (g_nodes g)"
    by (simp add: decoded_node_def quantized_xyz_def comp_def split: prod.splits option.splits)
  show ?thesis
    by (intro exI[of _ ?d] conjI c0 c1 c2 c3 c4 c5 c6)
qed

lemma quantize_examples:
  "quantize_position (5 / 2) = 2" "quantize_position (- 7 / 2) = - 4"
  "quantize_position 40000 = 32767" "quantize_position (- (7 / 2)) = - 4"
proof -
  have f1: "\<lfloor>5 / 2 :: rat\<rfloor> = 2" by (simp add: floor_eq_iff)
  have f2: "\<lfloor>- 7 / 2 :: rat\<rfloor> = - 4" by (simp add: floor_eq_iff)
  show "quantize_position (5 / 2) = 2"
    using f1 by (simp add: quantize_position_def round_half_even_def POSITION_SCALE_def Let_def)
  show "quantize_position (- 7 / 2) = - 4"
    using f2 by (simp add: quantize_position_def round_half_even_def POSITION_SCALE_def Let_def)
  show "quantize_position 40000 = 32767" by (rule quantize_clamped(1)) simp
  show "quantize_position (- (7 / 2)) = - 4"
    using f2 by (simp add: quantize_position_def round_half_even_def POSITION_SCALE_def Let_def)
qed

lemma corridor_md5_hex: "\<forall>t. length (corridor_md5 t) = 32 \<and> set (corridor_md5 t) \<subseteq> set hex_digits"
  by (simp add: corridor_md5_def hex_digits_def)

lemma corridor_finished:
  "\<exists>sv. compute_state_space corridor_md5 (KlotskiSolver corridor) = Some (Inr (sv, corridor_graph))"
  using corridor_run by (auto split: option.splits sum.splits)

lemma wrong_magic:
  assumes "4 \<le> length buf" "take 4 buf \<noteq> MAGIC"
  shows "parsePackedGraph buf = Inl InvalidMagic"
proof -
  from read_magic[OF assms(1)] have m: "read_array getUint8 1 buf 0 4 = Inr (map unat (take 4 buf))" .
  show ?thesis unfolding parsePackedGraph_def m using assms(2) by (simp add: map_unat_eq)
qed

lemma le_bytes_2: "le_bytes 2 n = [of_nat (n mod 256), of_nat (n div 256 mod 256)]"
  by (simp add: le_bytes_def numeral_2_eq_2)

lemma le_bytes_4: "le_bytes 4 n = [of_nat (n mod 256), of_nat (n div 256 mod 256),
     of_nat (n div 65536 mod 256), of_nat (n div 16777216 mod 256)]"
proof -
  have "[0..<4] = [0, 1, 2, 3::nat]" by (simp add: upt_conv_Cons)
  thus ?thesis by (simp add: le_bytes_def)
qed

lemma le_bytes_Suc0: "le_bytes (Suc 0) n = [of_nat (n mod 256)]"
  by (simp add: le_bytes_def)

lemma corridor_packed_eq: "pack_graph corridor_graph far_positions = Inr corridor_packed"
  by (simp add: corridor_packed_def pack_graph_def corridor_graph_def pack_header_def scale_raw VERSION_def MAGIC_def
      pack_u8_def pack_u16_def pack_u32_def pack_i16_def pack_piece_def pack_node_positions_def
      pack_node_xyz_def corridor_lookup quantize_examples pack_edge_def node_id_to_idx_def
      direction_code_def le_bytes_Suc0 le_bytes_2 le_bytes_4 hex_val_def is_space_def Let_def)

section \<open>The claims about the packed binary format\<close>

text \<open>
  C6 (as the code has it): the encoder clamps every quantized coordinate to the signed 16 bit
  range. The graph of the puzzle with one unit piece on a board of two by one cells, as the
  explorer returns it, is packed with a position table that puts its first node at
  \<open>(2.5, -3.5, 40000)\<close>; the decoder returns \<open>(2, -4, 32767)\<close> for that node, so that
  \<open>z\<close> is 7233 units away from the original.
\<close>

theorem clamped_position_is_far_off:
  "(\<exists>sv. compute_state_space corridor_md5 (KlotskiSolver corridor) = Some (Inr (sv, corridor_graph)))
   \<and> pack_graph corridor_graph far_positions = Inr corridor_packed
   \<and> parsePackedGraph corridor_packed
       = Inr \<lparr>nodeCount = 2, edgeCount = 2, pieceCount = 1, boardWidth = 2, boardHeight = 1,
              positionScaleRaw = 10, pg_pieces = [(1, 1)],
              pg_nodes = [\<lparr>pn_id = ''25f4e77213bca1f0180a975bc4cb53db'', pn_positions = [(0, 0)],
                           pn_x = Num 2, pn_y = Num (- 4), pn_z = Num 32767\<rparr>,
                          \<lparr>pn_id = ''5000c709bc3002ab02087e4655306adb'', pn_positions = [(1, 0)],
                           pn_x = Num 0, pn_y = Num 0, pn_z = Num 0\<rparr>],
              pg_edges = [\<lparr>pe_source = Some ''25f4e77213bca1f0180a975bc4cb53db'',
                            pe_target = Some ''5000c709bc3002ab02087e4655306adb'',
                            pe_piece_id = 0, pe_direction = ''right''\<rparr>,
                          \<lparr>pe_source = Some ''5000c709bc3002ab02087e4655306adb'',
                            pe_target = Some ''25f4e77213bca1f0180a975bc4cb53db'',
                            pe_piece_id = 0, pe_direction = ''left''\<rparr>]\<rparr>
   \<and> pos_lookup far_positions ''25f4e77213bca1f0180a975bc4cb53db'' = Some (5 / 2, - 7 / 2, 40000)
   \<and> \<bar>32767 - 40000 :: rat\<bar> = 7233"
proof -
  have p: "parsePackedGraph corridor_packed
       = Inr \<lparr>nodeCount = 2, edgeCount = 2, pieceCount = 1, boardWidth = 2, boardHeight = 1,
              positionScaleRaw = 10, pg_pieces = [(1, 1)],
              pg_nodes = [\<lparr>pn_id = ''25f4e77213bca1f0180a975bc4cb53db'', pn_positions = [(0, 0)],
                           pn_x = Num 2, pn_y = Num (- 4), pn_z = Num 32767\<rparr>,
                          \<lparr>pn_id = ''5000c709bc3002ab02087e4655306adb'', pn_positions = [(1, 0)],
                           pn_x = Num 0, pn_y = Num 0, pn_z = Num 0\<rparr>],
              pg_edges = [\<lparr>pe_source = Some ''25f4e77213bca1f0180a975bc4cb53db'',
                            pe_target = Some ''5000c709bc3002ab02087e4655306adb'',
                            pe_piece_id = 0, pe_direction = ''right''\<rparr>,
                          \<lparr>pe_source = Some ''5000c709bc3002ab02087e4655306adb'',
                            pe_target = Some ''25f4e77213bca1f0180a975bc4cb53db'',
                            pe_piece_id = 0, pe_direction = ''left''\<rparr>]\<rparr>"
    unfolding roundtrip[OF corridor_well_formed corridor_packed_eq]
    by (simp add: corridor_graph_def decoded_node_def decoded_edge_def quantized_xyz_def
        corridor_lookup quantize_examples)
  have a: "\<bar>32767 - 40000 :: rat\<bar> = 7233" by simp
  show ?thesis by (intro conjI corridor_finished corridor_packed_eq p corridor_lookup(1) a)
qed

text \<open>
  C6 (amended): for every graph that the explorer returns (the digest being 32 lowercase
  hexadecimal digits, as md5 is) and every position table, if the encoder returns bytes, the
  decoder parses them, and the result has the node fingerprints in order, the piece
  (width, height) pairs, the board width and height, the edge list (source, target,
  piece_id, direction) and the piece positions of every node exactly. The 3D position of a
  node is the quantized value of its table entry, \<open>(0, 0, 0)\<close> for a node without an
  entry; a quantized value is within half a unit of the original when the original is
  between -32768 and 32767, and is the nearest bound of that range otherwise.
\<close>

theorem pack_parse_roundtrip:
  assumes "compute_state_space H (KlotskiSolver init) = Some (Inr (sv, g))"
    and "\<forall>t. length (H t) = 32 \<and> set (H t) \<subseteq> set hex_digits"
    and "pack_graph g positions = Inr bytes"
  shows "\<exists>d. parsePackedGraph bytes = Inr d
     \<and> map pn_id (pg_nodes d) = map n_id (g_nodes g)
     \<and> map (\<lambda>(w, h). (int w, int h)) (pg_pieces d) = map (\<lambda>p. (d_width p, d_height p)) (g_pieces g)
     \<and> int (boardWidth d) = g_board_width g \<and> int (boardHeight d) = g_board_height g
     \<and> map (\<lambda>e. (pe_source e, pe_target e, int (pe_piece_id e), pe_direction e)) (pg_edges d)
        = map (\<lambda>e. (Some (e_source e), Some (e_target e), e_piece_id e, e_direction e)) (g_edges g)
     \<and> map (\<lambda>n. map (\<lambda>(px, py). (int px, int py)) (pn_positions n)) (pg_nodes d)
        = map n_positions (g_nodes g)
     \<and> map (\<lambda>n. (pn_x n, pn_y n, pn_z n)) (pg_nodes d)
        = map (\<lambda>node. case pos_lookup positions (n_id node) of
                  None \<Rightarrow> (Num 0, Num 0, Num 0)
                | Some (x, y, z) \<Rightarrow> (Num (of_int (quantize_position x)),
                                    Num (of_int (quantize_position y)),
                                    Num (of_int (quantize_position z)))) (g_nodes g)
     \<and> (\<forall>v::rat. - 32768 \<le> v \<and> v \<le> 32767 \<longrightarrow> \<bar>of_int (quantize_position v) - v\<bar> \<le> 1 / 2)
     \<and> (\<forall>v::rat. 32767 \<le> v \<longrightarrow> quantize_position v = 32767)
     \<and> (\<forall>v::rat. v \<le> - 32768 \<longrightarrow> quantize_position v = - 32768)"
proof -
  have wf: "well_formed_graph g" by (rule finished_graph_well_formed[OF assms(1,2)])
  have q1: "\<forall>v::rat. - 32768 \<le> v \<and> v \<le> 32767 \<longrightarrow> \<bar>of_int (quantize_position v) - v\<bar> \<le> 1 / 2"
    using quantize_in_range(2) by blast
  have q2: "\<forall>v::rat. 32767 \<le> v \<longrightarrow> quantize_position v = 32767"
    using quantize_clamped(1) by blast
  have q3: "\<forall>v::rat. v \<le> - 32768 \<longrightarrow> quantize_position v = - 32768"
    using quantize_clamped(2) by blast
  from roundtrip_fields[OF wf assms(3)] obtain d where d: "parsePackedGraph bytes = Inr d
     \<and> map pn_id (pg_nodes d) = map n_id (g_nodes g)
     \<and> map (\<lambda>(w, h). (int w, int h)) (pg_pieces d) = map (\<lambda>p. (d_width p, d_height p)) (g_pieces g)
     \<and> int (boardWidth d) = g_board_width g \<and> int (boardHeight d) = g_board_height g
     \<and> map (\<lambda>e. (pe_source e, pe_target e, int (pe_piece_id e), pe_direction e)) (pg_edges d)
        = map (\<lambda>e. (Some (e_source e), Some (e_target e), e_piece_id e, e_direction e)) (g_edges g)
     \<and> map (\<lambda>n. map (\<lambda>(px, py). (int px, int py)) (pn_positions n)) (pg_nodes d)
        = map n_positions (g_nodes g)
     \<and> map (\<lambda>n. (pn_x n, pn_y n, pn_z n)) (pg_nodes d)
        = map (\<lambda>node. case pos_lookup positions (n_id node) of
                  None \<Rightarrow> (Num 0, Num 0, Num 0)
                | Some (x, y, z) \<Rightarrow> (Num (of_int (quantize_position x)),
                                    Num (of_int (quantize_position y)),
                                    Num (of_int (quantize_position z)))) (g_nodes g)" ..
  show ?thesis
    apply (rule exI[of _ d])
    using d q1 q2 q3 by (elim conjE, intro conjI) assumption+
qed

theorem pack_parse_roundtrip_witness:
  "(\<forall>t. length (corridor_md5 t) = 32 \<and> set (corridor_md5 t) \<subseteq> set hex_digits)
   \<and> (\<exists>sv bytes d.
        compute_state_space corridor_md5 (KlotskiSolver corridor) = Some (Inr (sv, corridor_graph))
      \<and> pack_graph corridor_graph far_positions = Inr bytes
      \<and> parsePackedGraph bytes = Inr d
      \<and> map pn_id (pg_nodes d)
          = [''25f4e77213bca1f0180a975bc4cb53db'', ''5000c709bc3002ab02087e4655306adb'']
      \<and> map (\<lambda>(w, h). (int w, int h)) (pg_pieces d) = [(1, 1)]
      \<and> int (boardWidth d) = 2 \<and> int (boardHeight d) = 1
      \<and> map (\<lambda>e. (pe_source e, pe_target e, int (pe_piece_id e), pe_direction e)) (pg_edges d)
          = [(Some ''25f4e77213bca1f0180a975bc4cb53db'', Some ''5000c709bc3002ab02087e4655306adb'',
              0, ''right''),
             (Some ''5000c709bc3002ab02087e4655306adb'', Some ''25f4e77213bca1f0180a975bc4cb53db'',
              0, ''left'')]
      \<and> map (\<lambda>n. map (\<lambda>(px, py). (int px, int py)) (pn_positions n)) (pg_nodes d)
          = [[(0, 0)], [(1, 0)]]
      \<and> map (\<lambda>n. (pn_x n, pn_y n, pn_z n)) (pg_nodes d)
          = [(Num 2, Num (- 4), Num 32767), (Num 0, Num 0, Num 0)]
      \<and> \<bar>of_int (quantize_position (5 / 2)) - 5 / 2 :: rat\<bar> \<le> 1 / 2)"
proof -
  from corridor_finished obtain sv where
    r: "compute_state_space corridor_md5 (KlotskiSolver corridor) = Some (Inr (sv, corridor_graph))" ..
  from corridor_packs obtain bytes where b: "pack_graph corridor_graph far_positions = Inr bytes" ..
  from pack_parse_roundtrip [OF r corridor_md5_hex b] obtain d where
    c0: "parsePackedGraph bytes = Inr d"
    and c1: "map pn_id (pg_nodes d) = map n_id (g_nodes corridor_graph)"
    and c2: "map (\<lambda>(w, h). (int w, int h)) (pg_pieces d)
         = map (\<lambda>p. (d_width p, d_height p)) (g_pieces corridor_graph)"
    and c3: "int (boardWidth d) = g_board_width corridor_graph"
    and c4: "int (boardHeight d) = g_board_height corridor_graph"
    and c5: "map (\<lambda>e. (pe_source e, pe_target e, int (pe_piece_id e), pe_direction e)) (pg_edges d)
        = map (\<lambda>e. (Some (e_source e), Some (e_target e), e_piece_id e, e_direction e))
            (g_edges corridor_graph)"
    and c6: "map (\<lambda>n. map (\<lambda>(px, py). (int px, int py)) (pn_positions n)) (pg_nodes d)
        = map n_positions (g_nodes corridor_graph)"
    and c7: "map (\<lambda>n. (pn_x n, pn_y n, pn_z n)) (pg_nodes d)
        = map (\<lambda>node. case pos_lookup far_positions (n_id node) of
                  None \<Rightarrow> (Num 0, Num 0, Num 0)
                | Some (x, y, z) \<Rightarrow> (Num (of_int (quantize_position x)),
                                    Num (of_int (quantize_position y)),
                                    Num (of_int (quantize_position z)))) (g_nodes corridor_graph)"
    and q: "\<forall>v::rat. - 32768 \<le> v \<and> v \<le> 32767 \<longrightarrow> \<bar>of_int (quantize_position v) - v\<bar> \<le> 1 / 2"
    by blast
  have d1: "map pn_id (pg_nodes d)
          = [''25f4e77213bca1f0180a975bc4cb53db'', ''5000c709bc3002ab02087e4655306adb'']"
    unfolding c1 by (simp add: corridor_graph_def)
  have d2: "map (\<lambda>(w, h). (int w, int h)) (pg_pieces d) = [(1, 1)]"
    unfolding c2 by (simp add: corridor_graph_def)
  have d3: "int (boardWidth d) = 2" unfolding c3 by (simp add: corridor_graph_def)
  have d4: "int (boardHeight d) = 1" unfolding c4 by (simp add: corridor_graph_def)
  have d5: "map (\<lambda>e. (pe_source e, pe_target e, int (pe_piece_id e), pe_direction e)) (pg_edges d)
          = [(Some ''25f4e77213bca1f0180a975bc4cb53db'', Some ''5000c709bc3002ab02087e4655306adb'',
              0, ''right''),
             (Some ''5000c709bc3002ab02087e4655306adb'', Some ''25f4e77213bca1f0180a975bc4cb53db'',
              0, ''left'')]"
    unfolding c5 by (simp add: corridor_graph_def)
  have d6: "map (\<lambda>n. map (\<lambda>(px, py). (int px, int py)) (pn_positions n)) (pg_nodes d)
          = [[(0, 0)], [(1, 0)]]"
    unfolding c6 by (simp add: corridor_graph_def)
  have d7: "map (\<lambda>n. (pn_x n, pn_y n, pn_z n)) (pg_nodes d)
          = [(Num 2, Num (- 4), Num 32767), (Num 0, Num 0, Num 0)]"
    unfolding c7 by (simp add: corridor_graph_def corridor_lookup quantize_examples)
  from q have d8: "\<bar>of_int (quantize_position (5 / 2)) - 5 / 2 :: rat\<bar> \<le> 1 / 2" by simp
  have "\<exists>sv bytes d.
        compute_state_space corridor_md5 (KlotskiSolver corridor) = Some (Inr (sv, corridor_graph))
      \<and> pack_graph corridor_graph far_positions = Inr bytes
      \<and> parsePackedGraph bytes = Inr d
      \<and> map pn_id (pg_nodes d)
          = [''25f4e77213bca1f0180a975bc4cb53db'', ''5000c709bc3002ab02087e4655306adb'']
      \<and> map (\<lambda>(w, h). (int w, int h)) (pg_pieces d) = [(1, 1)]
      \<and> int (boardWidth d) = 2 \<and> int (boardHeight d) = 1
      \<and> map (\<lambda>e. (pe_source e, pe_target e, int (pe_piece_id e), pe_direction e)) (pg_edges d)
          = [(Some ''25f4e77213bca1f0180a975bc4cb53db'', Some ''5000c709bc3002ab02087e4655306adb'',
              0, ''right''),
             (Some ''5000c709bc3002ab02087e4655306adb'', Some ''25f4e77213bca1f0180a975bc4cb53db'',
              0, ''left'')]
      \<and> map (\<lambda>n. map (\<lambda>(px, py). (int px, int py)) (pn_positions n)) (pg_nodes d)
          = [[(0, 0)], [(1, 0)]]
      \<and> map (\<lambda>n. (pn_x n, pn_y n, pn_z n)) (pg_nodes d)
          = [(Num 2, Num (- 4), Num 32767), (Num 0, Num 0, Num 0)]
      \<and> \<bar>of_int (quantize_position (5 / 2)) - 5 / 2 :: rat\<bar> \<le> 1 / 2"
    by (intro exI[of _ sv] exI[of _ bytes] exI[of _ d] conjI r b c0 d1 d2 d3 d4 d5 d6 d7 d8)
  with corridor_md5_hex show ?thesis by (rule conjI)
qed

text \<open>
  C7 (as the code has it): the decoder reads the version field and never compares it. A
  header with version 2 (the encoder writes \<open>VERSION = 1\<close>) and no pieces, nodes or edges
  parses.
\<close>

theorem version_two_is_accepted:
  "getUint16 [75, 76, 71, 82, 2, 0, 0, 0, 0, 0, 0, 0, 0, 0, 0, 0, 3, 3, 10, 0] 4 = Inr 2
   \<and> VERSION = 1
   \<and> parsePackedGraph [75, 76, 71, 82, 2, 0, 0, 0, 0, 0, 0, 0, 0, 0, 0, 0, 3, 3, 10, 0]
     = Inr \<lparr>nodeCount = 0, edgeCount = 0, pieceCount = 0, boardWidth = 3, boardHeight = 3,
           positionScaleRaw = 10, pg_pieces = [], pg_nodes = [], pg_edges = []\<rparr>"
proof -
  let ?b = "[75, 76, 71, 82, 2, 0, 0, 0, 0, 0, 0, 0, 0, 0, 0, 0, 3, 3, 10, 0] :: byte list"
  have m: "read_array getUint8 1 ?b 0 4 = Inr (map unat MAGIC)"
    using read_magic[of ?b] by (simp add: MAGIC_def)
  have h: "getUint16 ?b 4 = Inr 2" "getUint32 ?b 6 = Inr 0" "getUint32 ?b 10 = Inr 0"
    "getUint16 ?b 14 = Inr 0" "getUint8 ?b 16 = Inr 3" "getUint8 ?b 17 = Inr 3"
    "getUint16 ?b 18 = Inr 10"
    by (simp_all add: getUint16_def getUint32_def getUint8_def getUint_def le_value_def)
  have p: "parsePackedGraph ?b
     = Inr \<lparr>nodeCount = 0, edgeCount = 0, pieceCount = 0, boardWidth = 3, boardHeight = 3,
           positionScaleRaw = 10, pg_pieces = [], pg_nodes = [], pg_edges = []\<rparr>"
    using parse_of_reads[OF m h(1) h(2) h(3) h(4) h(5) h(6) h(7), of "[]" "[]" "[]" "[]" "[]"]
    by simp
  have v: "VERSION = 1" by (simp add: VERSION_def)
  show ?thesis by (intro conjI h(1) v p)
qed

text \<open>
  C7 (amended): for every buffer the decoder fails, returning an error and no parse, exactly
  when the buffer has fewer than the 20 bytes of the header, or fewer bytes than the counts
  in its header require (\<open>declared_size\<close>), or its first four bytes are not the magic
  value; in every other case, whatever the version field holds, it returns a parse. With at
  least four bytes and a wrong magic value the error is \<^verbatim>\<open>Error('Invalid magic')\<close>.
\<close>

theorem decoder_fails_iff:
  "(isl (parsePackedGraph buf) \<longleftrightarrow>
       length buf < 20 \<or> length buf < declared_size buf \<or> take 4 buf \<noteq> MAGIC)
   \<and> (4 \<le> length buf \<and> take 4 buf \<noteq> MAGIC \<longrightarrow> parsePackedGraph buf = Inl InvalidMagic)"
  using parse_fails_iff[of buf] wrong_magic[of buf] by blast

theorem decoder_fails_iff_witness:
  "isl (parsePackedGraph [])
   \<and> parsePackedGraph [0, 0, 0, 0] = Inl InvalidMagic
   \<and> isl (parsePackedGraph [75, 76, 71, 82, 1, 0, 1, 0, 0, 0, 0, 0, 0, 0, 0, 0, 3, 3, 10, 0])
   \<and> \<not> isl (parsePackedGraph [75, 76, 71, 82, 1, 0, 0, 0, 0, 0, 0, 0, 0, 0, 0, 0, 3, 3, 10, 0])"
proof -
  have a: "isl (parsePackedGraph [])" using decoder_fails_iff [of "[]"] by simp
  have b: "parsePackedGraph [0, 0, 0, 0] = Inl InvalidMagic"
    using decoder_fails_iff [of "[0, 0, 0, 0]"] by (simp add: MAGIC_def)
  have c: "isl (parsePackedGraph [75, 76, 71, 82, 1, 0, 1, 0, 0, 0, 0, 0, 0, 0, 0, 0, 3, 3, 10, 0])"
    using decoder_fails_iff [of "[75, 76, 71, 82, 1, 0, 1, 0, 0, 0, 0, 0, 0, 0, 0, 0, 3, 3, 10, 0]"]
    by (simp add: declared_size_def le_value_def MAGIC_def)
  have d: "\<not> isl (parsePackedGraph [75, 76, 71, 82, 1, 0, 0, 0, 0, 0, 0, 0, 0, 0, 0, 0, 3, 3, 10, 0])"
    using decoder_fails_iff [of "[75, 76, 71, 82, 1, 0, 0, 0, 0, 0, 0, 0, 0, 0, 0, 0, 3, 3, 10, 0]"]
    by (simp add: declared_size_def le_value_def MAGIC_def)
  show ?thesis by (intro conjI a b c d)
qed

end
